theory Spec2Isabelle
  imports Main "HOL-Library.AList" "HOL-Library.Sublist"
begin

section \<open>Python values used by the two pages\<close>

text \<open>
  The exceptions the modelled fragments of \<^verbatim>\<open>file_manager.py\<close> and
  \<^verbatim>\<open>cycles_plotter.py\<close> can raise. A fallible fragment returns
  \<open>error + 'a\<close>, with \<open>Inl\<close> for the exception.
\<close>

datatype error = ValueError | KeyError | IndexError | RuntimeError | ZeroDivisionError

text \<open>Python's \<^verbatim>\<open>str\<close> on a non-negative and on an arbitrary integer (decimal digits).\<close>

definition digit_char :: "nat \<Rightarrow> char" where
  "digit_char d = ''0123456789'' ! d"

function str_nat :: "nat \<Rightarrow> string" where
  "str_nat n = (if n < 10 then [digit_char n] else str_nat (n div 10) @ [digit_char (n mod 10)])"
  by pat_completeness auto
termination
  by (relation "measure id") auto

declare str_nat.simps [simp del]

definition str_int :: "int \<Rightarrow> string" where
  "str_int i = (if i < 0 then CHR ''-'' # str_nat (nat (- i)) else str_nat (nat i))"

text \<open>
  \<^verbatim>\<open>np.arange(start, stop, step=step)\<close> on Python integers: the values
  \<open>start + i * step\<close> for \<open>0 \<le> i < ceil ((stop - start) / step)\<close>; a zero step raises.
  (\<open>div\<close> on \<open>int\<close> rounds down, so \<open>- ((start - stop) div step)\<close> is the ceiling.)
\<close>

definition arange :: "int \<Rightarrow> int \<Rightarrow> int \<Rightarrow> error + int list" where
  "arange start stop step =
     (if step = 0 then Inl ZeroDivisionError
      else Inr (map (\<lambda>i. start + int i * step) [0..<nat (- ((start - stop) div step))]))"

section \<open>Stacked plot: constant-interval cycle selector\<close>

text \<open>
  \<^verbatim>\<open>cycles_in_view = np.arange(start, stop + 1, step=stride)\<close>, the sequence handed to
  \<^verbatim>\<open>selected_experiments.set(current_view, cycles_in_view)\<close> when Apply is pressed.
\<close>

definition cycles_in_view :: "int \<Rightarrow> int \<Rightarrow> int \<Rightarrow> error + int list" where
  "cycles_in_view start stop stride = arange start (stop + 1) stride"

section \<open>Comparison plot: the buffer of single-cycle series\<close>

text \<open>
  The class \<^verbatim>\<open>SingleCycleSeries\<close> as the plotter page constructs and reads it:
  \<^verbatim>\<open>SingleCycleSeries(label, experiment_name, cycle_id, hex_color=..., color_from_base=...)\<close>.
  The buffer is the list \<^verbatim>\<open>st.session_state["Page2_ComparisonPlot"]\<close>.
\<close>

record SingleCycleSeries =
  label :: string
  experiment_name :: string
  cycle_id :: int
  hex_color :: string
  color_from_base :: bool

text \<open>
  \<^verbatim>\<open>remove_experiment_from_series_buffer(name)\<close>: the buffer is copied and cleared, and each
  series of the copy whose experiment name differs from \<open>name\<close> is appended again.
\<close>

definition remove_experiment_from_series_buffer ::
  "string \<Rightarrow> SingleCycleSeries list \<Rightarrow> SingleCycleSeries list" where
  "remove_experiment_from_series_buffer name selected_series =
     fold (\<lambda>series acc. if experiment_name series \<noteq> name then acc @ [series] else acc)
       selected_series []"

text \<open>
  The inner loop of the stride-based selector: is there a series of the buffer with this
  experiment name and this cycle id?
\<close>

fun duplicate :: "string \<Rightarrow> int \<Rightarrow> SingleCycleSeries list \<Rightarrow> bool" where
  "duplicate name n [] = False"
| "duplicate name n (series # rest) =
     (if experiment_name series = name \<and> cycle_id series = n then True
      else duplicate name n rest)"

text \<open>The f-string \<^verbatim>\<open>f"{label_prefix} [{n}]"\<close>.\<close>

definition series_label :: "string \<Rightarrow> int \<Rightarrow> string" where
  "series_label label_prefix n = label_prefix @ '' ['' @ str_int n @ '']''"

text \<open>
  The loop \<^verbatim>\<open>for n in cycles_in_selection\<close> of the stride-based selector. The palette
  \<^verbatim>\<open>get_plotly_color\<close> (of \<^verbatim>\<open>core.colors\<close>) is a parameter. \<^verbatim>\<open>cycle_numbers.index(n)\<close> raises
  ValueError when \<open>n\<close> is not a cycle number; the buffer is a shared list mutated in place,
  so the series appended before the exception stay in it: the loop returns the exception,
  if any, together with the buffer.
\<close>

fun stride_loop ::
  "(nat \<Rightarrow> string) \<Rightarrow> int list \<Rightarrow> string \<Rightarrow> string \<Rightarrow> bool \<Rightarrow> int list \<Rightarrow>
   SingleCycleSeries list \<Rightarrow> error option \<times> SingleCycleSeries list" where
  "stride_loop get_plotly_color cycle_numbers name label_prefix use_base_color []
     selected_series = (None, selected_series)"
| "stride_loop get_plotly_color cycle_numbers name label_prefix use_base_color (n # ns)
     selected_series =
     (if n \<notin> set cycle_numbers then (Some ValueError, selected_series)
      else if duplicate name n selected_series
      then stride_loop get_plotly_color cycle_numbers name label_prefix use_base_color ns
             selected_series
      else stride_loop get_plotly_color cycle_numbers name label_prefix use_base_color ns
             (selected_series @
              [\<lparr>label = series_label label_prefix n, experiment_name = name, cycle_id = n,
                hex_color = get_plotly_color (length selected_series),
                color_from_base = use_base_color\<rparr>]))"

text \<open>
  The Apply button of the stride-based selector: the series of the chosen experiment are
  removed from the buffer first, then the loop runs over
  \<^verbatim>\<open>np.arange(start, stop + 1, step=stride)\<close>.
\<close>

definition comparison_stride_apply ::
  "(nat \<Rightarrow> string) \<Rightarrow> int list \<Rightarrow> string \<Rightarrow> string \<Rightarrow> bool \<Rightarrow> int \<Rightarrow> int \<Rightarrow> int \<Rightarrow>
   SingleCycleSeries list \<Rightarrow> error option \<times> SingleCycleSeries list" where
  "comparison_stride_apply get_plotly_color cycle_numbers name label_prefix use_base_color
     start stop stride selected_series =
     (let cleared = remove_experiment_from_series_buffer name selected_series in
      case arange start (stop + 1) stride of
        Inl e \<Rightarrow> (Some e, cleared)
      | Inr cycles_in_selection \<Rightarrow>
          stride_loop get_plotly_color cycle_numbers name label_prefix use_base_color
            cycles_in_selection cleared)"

text \<open>The (experiment name, cycle id) pair a series stands for.\<close>

definition series_key :: "SingleCycleSeries \<Rightarrow> string \<times> int" where
  "series_key series = (experiment_name series, cycle_id series)"

subsection \<open>Colour resolution when the comparison plot is drawn\<close>

text \<open>
  \<^verbatim>\<open>experiment_based_selection\<close>: a dictionary from each experiment name to the cycle ids
  of its series, in buffer order.
\<close>

definition experiment_based_selection ::
  "SingleCycleSeries list \<Rightarrow> (string \<rightharpoonup> int list)" where
  "experiment_based_selection selected_series =
     fold (\<lambda>entry d.
            (case d (experiment_name entry) of
               None \<Rightarrow> d(experiment_name entry \<mapsto> [cycle_id entry])
             | Some ids \<Rightarrow> d(experiment_name entry \<mapsto> ids @ [cycle_id entry])))
       selected_series Map.empty"

text \<open>\<^verbatim>\<open>xs.index(x)\<close>: the position of the first occurrence, ValueError when there is none.\<close>

fun list_index :: "'a list \<Rightarrow> 'a \<Rightarrow> error + nat" where
  "list_index [] x = Inl ValueError"
| "list_index (y # ys) x =
     (if y = x then Inr 0
      else (case list_index ys x of Inl e \<Rightarrow> Inl e | Inr i \<Rightarrow> Inr (Suc i)))"

text \<open>
  The colour of one trace. The registry lookup \<^verbatim>\<open>status[status.get_index_of(name)]\<close> and
  the classes behind it (\<^verbatim>\<open>core.gui_core\<close>, \<^verbatim>\<open>core.experiment\<close>, \<^verbatim>\<open>core.colors\<close>) are
  parameters: \<open>registry\<close> gives, for the name of a loaded experiment, its base colour and
  its number of cycles; \<open>get_shade\<close> and \<open>RGB_to_HEX\<close> are the shading function and the
  conversion to a hex string. A name that is not registered is reported as RuntimeError.
  \<^verbatim>\<open>experiment._cycles[cycle_id]\<close> is Python list indexing: a negative index counts from
  the end, and an index out of range raises IndexError.
\<close>

definition trace_color ::
  "(string \<rightharpoonup> 'c \<times> nat) \<Rightarrow> ('c \<Rightarrow> nat \<Rightarrow> nat \<Rightarrow> bool \<Rightarrow> 'rgb) \<Rightarrow> ('rgb \<Rightarrow> string) \<Rightarrow> bool \<Rightarrow>
   SingleCycleSeries list \<Rightarrow> SingleCycleSeries \<Rightarrow> error + string" where
  "trace_color registry get_shade RGB_to_HEX reverse selected_series entry =
     (case registry (experiment_name entry) of
        None \<Rightarrow> Inl RuntimeError
      | Some (color, ncycles) \<Rightarrow>
          if \<not> (- int ncycles \<le> cycle_id entry \<and> cycle_id entry < int ncycles)
          then Inl IndexError
          else
            (case experiment_based_selection selected_series (experiment_name entry) of
               None \<Rightarrow> Inl KeyError
             | Some ids \<Rightarrow>
                 (case list_index ids (cycle_id entry) of
                    Inl e \<Rightarrow> Inl e
                  | Inr trace_id \<Rightarrow>
                      let num_traces = length ids;
                          shade = RGB_to_HEX (get_shade color trace_id num_traces reverse)
                      in Inr (if color_from_base entry = False then hex_color entry
                              else shade))))"

subsection \<open>Deleting an experiment in the file manager\<close>

text \<open>
  The part of the session the Delete button touches: the names of the registered
  experiments in registry order, the comparison buffer and the name remembered in
  \<^verbatim>\<open>st.session_state["SelectedExperimentName"]\<close>.
\<close>

record session =
  experiments :: "string list"
  comparison_plot :: "SingleCycleSeries list"
  selected_experiment_name :: "string option"

text \<open>
  Modelled from the spec: \<^verbatim>\<open>remove_experiment_entries\<close> of \<^verbatim>\<open>core.post_process_handler\<close> is
  not among the sources. The spec: deleting an experiment that has entries in the
  Comparison Series Model removes all of that experiment's series from the buffer.
\<close>

definition remove_experiment_entries ::
  "string \<Rightarrow> SingleCycleSeries list \<Rightarrow> SingleCycleSeries list" where
  "remove_experiment_entries name buffer = filter (\<lambda>series. experiment_name series \<noteq> name) buffer"

text \<open>
  Modelled from the spec: \<^verbatim>\<open>ProgramStatus.remove_experiment\<close> and \<^verbatim>\<open>get_index_of\<close> of
  \<^verbatim>\<open>core.gui_core\<close> are not among the sources. The registry is an ordered sequence of
  experiments with unique names; the experiment found under the name is removed.
\<close>

definition remove_experiment :: "string \<Rightarrow> string list \<Rightarrow> string list" where
  "remove_experiment name registry = remove1 name registry"

text \<open>The handler of the Delete button, for the experiment called \<open>name\<close>.\<close>

definition delete_experiment :: "string \<Rightarrow> session \<Rightarrow> session" where
  "delete_experiment name s =
     (let s1 = s\<lparr>comparison_plot := remove_experiment_entries name (comparison_plot s)\<rparr>;
          s2 = s1\<lparr>experiments := remove_experiment name (experiments s1)\<rparr>
      in if selected_experiment_name s2 = Some name
         then s2\<lparr>selected_experiment_name := None\<rparr> else s2)"

section \<open>The metric-series accessor of the plotter\<close>

definition HALFCYCLE_SERIES :: "string list" where
  "HALFCYCLE_SERIES = [''time'', ''voltage'', ''current'', ''charge'', ''power'', ''energy'']"

text \<open>
  The attributes of a \<^verbatim>\<open>HalfCycle\<close> (of the external library echemsuite) that the accessor
  reads, each a pandas Series; \<open>'s\<close> is the type of a Series. The attribute \<^verbatim>\<open>power\<close> is
  called \<open>power_hc\<close> here.
\<close>

record 's HalfCycle =
  time :: 's
  voltage :: 's
  current :: 's
  Q :: 's
  power_hc :: 's
  energy :: 's

text \<open>
  The arithmetic of pandas and of Python floats is not modelled: the three operations the
  accessor uses are parameters. \<open>series_div s x\<close> is \<^verbatim>\<open>s / x\<close> for a Series and a float,
  \<open>series_scale k s\<close> is \<^verbatim>\<open>k * s\<close> for an integer and a Series, \<open>float_scale k x\<close> is
  \<^verbatim>\<open>k * x\<close> for an integer and a float (\<open>'f\<close> is the type of a float).
\<close>

record ('s, 'f) arithmetic =
  series_div :: "'s \<Rightarrow> 'f \<Rightarrow> 's"
  series_scale :: "int \<Rightarrow> 's \<Rightarrow> 's"
  float_scale :: "int \<Rightarrow> 'f \<Rightarrow> 'f"

text \<open>\<^verbatim>\<open>get_halfcycle_series(halfcycle, title, volume=None, area=None)\<close>.\<close>

definition get_halfcycle_series ::
  "('s, 'f) arithmetic \<Rightarrow> 's HalfCycle \<Rightarrow> string \<Rightarrow> 'f option \<Rightarrow> 'f option \<Rightarrow>
   error + string \<times> 's" where
  "get_halfcycle_series ops halfcycle title volume area =
     (if title = ''time'' then Inr (''Time (s)'', time halfcycle)
      else if title = ''voltage'' then Inr (''Voltage (V)'', voltage halfcycle)
      else if title = ''current'' then
        (case area of
           None \<Rightarrow> Inr (''Current (A)'', current halfcycle)
         | Some a \<Rightarrow>
             Inr (''Current density (A/cm<sup>2</sup>)'', series_div ops (current halfcycle) a))
      else if title = ''charge'' then
        (case volume of
           None \<Rightarrow> Inr (''Capacity (mAh)'', Q halfcycle)
         | Some v \<Rightarrow>
             Inr (''Volumetric capacity (Ah/L)'',
                  series_div ops (Q halfcycle) (float_scale ops 1000 v)))
      else if title = ''power'' then
        (case area of
           None \<Rightarrow> Inr (''Power (W)'', power_hc halfcycle)
         | Some a \<Rightarrow>
             Inr (''Power density (mW/cm<sup>2</sup>)'',
                  series_div ops (series_scale ops 1000 (power_hc halfcycle)) a))
      else if title = ''energy'' then
        (case volume of
           None \<Rightarrow> Inr (''Energy (mWh)'', energy halfcycle)
         | Some v \<Rightarrow>
             Inr (''Energy density (Wh/L)'',
                  series_div ops (energy halfcycle) (float_scale ops 1000 v)))
      else Inl ValueError)"

section \<open>File manager: the ordering table of the experiment editor\<close>

type_synonym filename = string

text \<open>
  One row of the table: the file name and the values of its two number inputs,
  \<^verbatim>\<open>new_cycle\<close> (Halfcycle ID) and \<^verbatim>\<open>new_halfcycle\<close> (partial files order). Both inputs have
  \<^verbatim>\<open>min_value=0\<close>, so they are natural numbers. The rows come in display order.
\<close>

type_synonym row = "filename \<times> nat \<times> nat"

text \<open>
  The table body: after each row \<^verbatim>\<open>ordering_buffer[filename]\<close> holds the two values of
  the row and \<^verbatim>\<open>max_cycle\<close> is the largest Halfcycle ID so far (starting from 0). A Python
  dictionary keeps insertion order and an assignment to a key it has replaces the value in
  place: that is \<open>AList.update\<close> on an association list.
\<close>

definition table_body :: "row list \<Rightarrow> nat \<times> (filename \<times> nat \<times> nat) list" where
  "table_body rows =
     fold (\<lambda>(filename, new_cycle, new_halfcycle) (max_cycle, ordering_buffer).
             (max max_cycle new_cycle,
              AList.update filename (new_cycle, new_halfcycle) ordering_buffer))
       rows (0, [])"

text \<open>
  The loop over \<^verbatim>\<open>ordering_buffer.items()\<close> that fills \<^verbatim>\<open>cycle_based_buffer\<close>, a list of
  dictionaries from the order of a partial file to its name, and sets \<^verbatim>\<open>repetition\<close>.
  Indexing the list beyond its end raises IndexError.
\<close>

fun fill_cycle_based_buffer ::
  "(filename \<times> nat \<times> nat) list \<Rightarrow> bool \<times> (nat \<times> filename) list list \<Rightarrow>
   error + bool \<times> (nat \<times> filename) list list" where
  "fill_cycle_based_buffer [] state = Inr state"
| "fill_cycle_based_buffer ((filename, cycle, halfcycle) # rest) (repetition, cycle_based_buffer) =
     (if length cycle_based_buffer \<le> cycle then Inl IndexError
      else fill_cycle_based_buffer rest
             (repetition \<or> halfcycle \<in> set (map fst (cycle_based_buffer ! cycle)),
              cycle_based_buffer
                [cycle := AList.update halfcycle filename (cycle_based_buffer ! cycle)]))"

text \<open>The indices of the empty dictionaries, as strings: the missing Halfcycle IDs.\<close>

definition missing_indices :: "(nat \<times> filename) list list \<Rightarrow> string list" where
  "missing_indices cycle_based_buffer =
     map (\<lambda>(index, dictionary). str_nat index)
       (filter (\<lambda>(index, dictionary). dictionary = []) (enumerate 0 cycle_based_buffer))"

text \<open>
  \<^verbatim>\<open>is_charge_list\<close> of one group. \<open>halfcycle_type\<close> stands for
  \<^verbatim>\<open>experiment.manager.halfcycles[filename].halfcycle_type\<close>; a file name that is not a
  key of the dictionary raises KeyError.
\<close>

fun is_charge_list :: "(filename \<rightharpoonup> string) \<Rightarrow> filename list \<Rightarrow> error + bool list" where
  "is_charge_list halfcycle_type [] = Inr []"
| "is_charge_list halfcycle_type (filename # rest) =
     (case halfcycle_type filename of
        None \<Rightarrow> Inl KeyError
      | Some t \<Rightarrow>
          (case is_charge_list halfcycle_type rest of
             Inl e \<Rightarrow> Inl e
           | Inr values \<Rightarrow> Inr ((t = ''charge'') # values)))"

text \<open>
  The loop over the groups that sets \<^verbatim>\<open>partial_halfcycle_type_mismatch\<close> and breaks at the
  first group with two types. \<^verbatim>\<open>is_charge_list[0]\<close> is only read for a non-empty list.
\<close>

fun type_mismatch :: "(filename \<rightharpoonup> string) \<Rightarrow> (nat \<times> filename) list list \<Rightarrow> error + bool" where
  "type_mismatch halfcycle_type [] = Inr False"
| "type_mismatch halfcycle_type (buffer # rest) =
     (case is_charge_list halfcycle_type (map snd buffer) of
        Inl e \<Rightarrow> Inl e
      | Inr values \<Rightarrow>
          if (case values of [] \<Rightarrow> False | first # _ \<Rightarrow> list_ex (\<lambda>value. value \<noteq> first) values)
          then Inr True
          else type_mismatch halfcycle_type rest)"

text \<open>
  The file names of one group by ascending order index:
  \<^verbatim>\<open>for i in range(max(buffer.keys()) + 1): if i in buffer.keys(): append(buffer[i])\<close>.
  \<^verbatim>\<open>max\<close> of an empty sequence raises ValueError.
\<close>

definition group_ordering :: "(nat \<times> filename) list \<Rightarrow> error + filename list" where
  "group_ordering buffer =
     (if buffer = [] then Inl ValueError
      else Inr (List.map_filter (map_of buffer) [0..<Max (set (map fst buffer)) + 1]))"

fun new_ordering :: "(nat \<times> filename) list list \<Rightarrow> error + filename list list" where
  "new_ordering [] = Inr []"
| "new_ordering (buffer # rest) =
     (case group_ordering buffer of
        Inl e \<Rightarrow> Inl e
      | Inr files \<Rightarrow>
          (case new_ordering rest of Inl e \<Rightarrow> Inl e | Inr groups \<Rightarrow> Inr (files # groups)))"

text \<open>
  What the editor does with the table: one of the three warnings, or the new ordering.
  The code has no names for the warnings; they are called as in the specification.
\<close>

datatype outcome =
    MissingCycleIndices "string list"
  | SlotRepetition
  | HalfcycleTypeMismatch
  | Accepted "filename list list"

text \<open>
  The processing of the table, from \<^verbatim>\<open>repetition = False\<close> to the end of the chain of
  \<^verbatim>\<open>if missing != [] ... elif repetition ... elif partial_halfcycle_type_mismatch ... else\<close>.
  The three flags are computed first, in the order of the source, then tested.
\<close>

definition validate_ordering :: "(filename \<rightharpoonup> string) \<Rightarrow> row list \<Rightarrow> error + outcome" where
  "validate_ordering halfcycle_type rows =
     (case table_body rows of
        (max_cycle, ordering_buffer) \<Rightarrow>
          (case fill_cycle_based_buffer ordering_buffer (False, replicate (max_cycle + 1) []) of
             Inl e \<Rightarrow> Inl e
           | Inr (repetition, cycle_based_buffer) \<Rightarrow>
               let missing = missing_indices cycle_based_buffer in
               (case type_mismatch halfcycle_type cycle_based_buffer of
                  Inl e \<Rightarrow> Inl e
                | Inr partial_halfcycle_type_mismatch \<Rightarrow>
                    if missing \<noteq> [] then Inr (MissingCycleIndices missing)
                    else if repetition then Inr SlotRepetition
                    else if partial_halfcycle_type_mismatch then Inr HalfcycleTypeMismatch
                    else (case new_ordering cycle_based_buffer of
                            Inl e \<Rightarrow> Inl e
                          | Inr groups \<Rightarrow> Inr (Accepted groups)))))"

text \<open>
  The value of \<^verbatim>\<open>experiment.ordering\<close> after the editor has processed the table: it is
  assigned only in the last branch, when the new ordering differs from the current one.
  An exception is raised before any assignment.
\<close>

definition edit_ordering ::
  "(filename \<rightharpoonup> string) \<Rightarrow> row list \<Rightarrow> filename list list \<Rightarrow> error + filename list list" where
  "edit_ordering halfcycle_type rows current_ordering =
     (case validate_ordering halfcycle_type rows of
        Inl e \<Rightarrow> Inl e
      | Inr (Accepted groups) \<Rightarrow>
          Inr (if groups \<noteq> current_ordering then groups else current_ordering)
      | Inr _ \<Rightarrow> Inr current_ordering)"

subsection \<open>The cycles of an accepted ordering\<close>

text \<open>
  Modelled from the spec: the Cycle Assembler (the setter of \<^verbatim>\<open>experiment.ordering\<close> in
  \<^verbatim>\<open>core.experiment\<close>) is not among the sources. The spec: for each outer group of the
  canonical ordering one Cycle is produced; if the group has exactly one charge file that
  half-cycle becomes the charge slot, likewise for discharge; several files of one type
  are merged by the external parser (\<open>merge\<close>, a parameter); the hidden flag comes from an
  external plausibility check (\<open>hidden_of\<close>, a parameter).
\<close>

record Cycle =
  charge :: "filename option"
  discharge :: "filename option"
  hidden :: bool
  cycle_index :: nat

definition resolve :: "(filename list \<Rightarrow> filename) \<Rightarrow> filename list \<Rightarrow> filename option" where
  "resolve merge files =
     (case files of [] \<Rightarrow> None | [filename] \<Rightarrow> Some filename | _ \<Rightarrow> Some (merge files))"

definition cycle_assembler ::
  "(filename \<rightharpoonup> string) \<Rightarrow> (filename list \<Rightarrow> filename) \<Rightarrow> (nat \<Rightarrow> bool) \<Rightarrow>
   filename list list \<Rightarrow> Cycle list" where
  "cycle_assembler halfcycle_type merge hidden_of groups =
     map (\<lambda>(index, files).
            \<lparr>charge = resolve merge (filter (\<lambda>f. halfcycle_type f = Some ''charge'') files),
             discharge = resolve merge (filter (\<lambda>f. halfcycle_type f = Some ''discharge'') files),
             hidden = hidden_of index,
             cycle_index = index\<rparr>)
       (enumerate 0 groups)"

section \<open>File manager: adding files to an existing experiment\<close>

text \<open>
  What the upload handler reads and writes of an \<^verbatim>\<open>Experiment\<close>: the instrument of its
  manager, the keys of \<^verbatim>\<open>manager.bytestreams\<close> (the uploaded files) and of
  \<^verbatim>\<open>manager.halfcycles\<close> (the parsed half-cycles), and the counter \<^verbatim>\<open>_skipped_files\<close>.
\<close>

record Experiment =
  instrument :: string
  bytestreams :: "filename list"
  halfcycles :: "filename list"
  skipped_files :: nat

text \<open>
  The list \<^verbatim>\<open>skipped_files\<close> of the new batch. For GAMRY a file is skipped when it is
  not a key of the half-cycles (looked at only when the two dictionaries differ in size);
  for BIOLOGIC when it is a substring of no key of the half-cycles; any other instrument
  raises RuntimeError.
\<close>

definition generate_skipped :: "Experiment \<Rightarrow> error + filename list" where
  "generate_skipped new_experiment =
     (if instrument new_experiment = ''GAMRY'' then
        (if length (bytestreams new_experiment) \<noteq> length (halfcycles new_experiment)
         then Inr (filter (\<lambda>filename. filename \<notin> set (halfcycles new_experiment))
                    (bytestreams new_experiment))
         else Inr [])
      else if instrument new_experiment = ''BIOLOGIC'' then
        Inr (filter (\<lambda>filename. \<not> list_ex (\<lambda>search. sublist filename search)
                                   (halfcycles new_experiment))
               (bytestreams new_experiment))
      else Inl RuntimeError)"

text \<open>
  The upload handler for the action "Add to existing experiment", from the instrument
  check to the update of the skipped-file counter. \<^verbatim>\<open>experiment += new_experiment\<close> is
  \<^verbatim>\<open>Experiment.__iadd__\<close> of \<^verbatim>\<open>core.experiment\<close>, a parameter. The name chosen in the form
  is the name of the existing experiment, so \<^verbatim>\<open>status[status.get_index_of(name)]\<close> is that
  experiment. The result is the exception raised, if any, and the existing experiment as
  the handler leaves it.
\<close>

definition add_to_existing ::
  "(Experiment \<Rightarrow> Experiment \<Rightarrow> Experiment) \<Rightarrow> Experiment \<Rightarrow> Experiment \<Rightarrow>
   error option \<times> Experiment" where
  "add_to_existing iadd experiment new_experiment =
     (let joined = (if instrument experiment \<noteq> instrument new_experiment then experiment
                    else iadd experiment new_experiment)
      in case generate_skipped new_experiment of
           Inl e \<Rightarrow> (Some e, joined)
         | Inr skipped \<Rightarrow>
             (None,
              if skipped \<noteq> []
              then joined\<lparr>skipped_files := skipped_files joined + length skipped\<rparr>
              else joined))"

section \<open>Properties of arange\<close>

lemma int_div_less_iff:
  fixes a b k :: int
  assumes "0 < b"
  shows "a div b < k \<longleftrightarrow> a < k * b"
proof
  assume "a div b < k"
  then have "(a div b + 1) * b \<le> k * b"
    using assms by (intro mult_right_mono) auto
  then have 1: "(a div b) * b + b \<le> k * b" by (simp add: distrib_right)
  have 2: "(a div b) * b + a mod b = a" by simp
  have 3: "a mod b < b" using assms by simp
  from 1 2 3 show "a < k * b" by linarith
next
  assume lt: "a < k * b"
  show "a div b < k"
  proof (rule ccontr)
    assume "\<not> a div b < k"
    then have 1: "k * b \<le> (a div b) * b"
      using assms by (intro mult_right_mono) auto
    have 2: "(a div b) * b + a mod b = a" by simp
    have 3: "0 \<le> a mod b" using assms by simp
    from 1 2 3 lt show False by linarith
  qed
qed

lemma arange_count:
  assumes "1 \<le> step"
  shows "int i < - ((start - stop) div step) \<longleftrightarrow> start + int i * step < stop"
proof -
  have "int i < - ((start - stop) div step) \<longleftrightarrow> (start - stop) div step < - int i" by linarith
  also have "\<dots> \<longleftrightarrow> start - stop < (- int i) * step"
    using assms by (intro int_div_less_iff) simp
  also have "\<dots> \<longleftrightarrow> start + int i * step < stop" by (simp add: algebra_simps)
  finally show ?thesis .
qed

lemma arange_set:
  assumes "1 \<le> step" and "arange start stop step = Inr xs"
  shows "set xs = {x. start \<le> x \<and> x < stop \<and> (x - start) mod step = 0}"
proof -
  let ?n = "nat (- ((start - stop) div step))"
  have xs: "xs = map (\<lambda>i. start + int i * step) [0..<?n]"
    using assms by (auto simp: arange_def)
  have lt: "i < ?n \<longleftrightarrow> start + int i * step < stop" for i
    using arange_count [OF assms(1), of i start stop] by linarith
  show ?thesis
  proof (intro set_eqI iffI)
    fix x assume "x \<in> set xs"
    then obtain i where i: "i < ?n" "x = start + int i * step"
      by (auto simp: xs)
    have "0 \<le> int i * step" using assms(1) by simp
    with i lt [of i] show "x \<in> {x. start \<le> x \<and> x < stop \<and> (x - start) mod step = 0}"
      by simp
  next
    fix x assume "x \<in> {x. start \<le> x \<and> x < stop \<and> (x - start) mod step = 0}"
    then have x: "start \<le> x" "x < stop" "(x - start) mod step = 0" by auto
    define i where "i = nat ((x - start) div step)"
    have "0 \<le> (x - start) div step"
      using x(1) assms(1) by (simp add: pos_imp_zdiv_nonneg_iff)
    then have "int i = (x - start) div step" by (simp add: i_def)
    moreover have "(x - start) div step * step = x - start"
      using x(3) by (metis add.right_neutral div_mult_mod_eq)
    ultimately have eq: "x = start + int i * step" by simp
    with x(2) lt [of i] have "i < ?n" by simp
    with eq show "x \<in> set xs" by (auto simp: xs)
  qed
qed

lemma arange_sorted:
  assumes "1 \<le> step" and "arange start stop step = Inr xs"
  shows "sorted_wrt (<) xs"
proof -
  have "xs = map (\<lambda>i. start + int i * step) [0..<nat (- ((start - stop) div step))]"
    using assms by (auto simp: arange_def)
  moreover have "sorted_wrt (<) (map (\<lambda>i. start + int i * step) [0..<n])" for n
    using assms(1) by (simp add: sorted_wrt_map sorted_wrt_iff_nth_less)
  ultimately show ?thesis by simp
qed

lemma arange_total: "step \<noteq> 0 \<Longrightarrow> \<exists>xs. arange start stop step = Inr xs"
  by (simp add: arange_def)

text \<open>
  C9. Stride selection with start 0, stop 9 and stride 2 yields exactly the indices
  0, 2, 4, 6, 8. In general, for a stride of at least 1 (the lower bound of the Stride
  input), the generated sequence is the ascending enumeration of the values of
  range(start, stop + 1, stride), that is of the \<open>x\<close> with \<open>start \<le> x \<le> stop\<close> at a
  multiple of the stride from start; and when \<open>0 \<le> start\<close> and
  \<open>stop \<le> number of cycles - 1\<close> every generated index is the index of an existing cycle.
\<close>

theorem stride_selection_indices:
  "cycles_in_view 0 9 2 = Inr [0, 2, 4, 6, 8] \<and>
   (1 \<le> stride \<longrightarrow>
     (\<exists>xs. cycles_in_view start stop stride = Inr xs \<and> sorted_wrt (<) xs \<and>
        set xs = {x. start \<le> x \<and> x \<le> stop \<and> (x - start) mod stride = 0} \<and>
        (0 \<le> start \<and> stop \<le> int ncycles - 1 \<longrightarrow>
           (\<forall>n \<in> set xs. 0 \<le> n \<and> n < int ncycles))))"
proof (intro conjI impI)
  show "cycles_in_view 0 9 2 = Inr [0, 2, 4, 6, 8]"
    by (simp add: cycles_in_view_def arange_def upt_conv_Cons)
next
  assume st: "1 \<le> stride"
  then obtain xs where xs: "arange start (stop + 1) stride = Inr xs"
    using arange_total [of stride start "stop + 1"] by auto
  have s: "set xs = {x. start \<le> x \<and> x \<le> stop \<and> (x - start) mod stride = 0}"
    using arange_set [OF st xs] by auto
  have "sorted_wrt (<) xs" by (rule arange_sorted [OF st xs])
  with xs s show "\<exists>xs. cycles_in_view start stop stride = Inr xs \<and> sorted_wrt (<) xs \<and>
        set xs = {x. start \<le> x \<and> x \<le> stop \<and> (x - start) mod stride = 0} \<and>
        (0 \<le> start \<and> stop \<le> int ncycles - 1 \<longrightarrow>
           (\<forall>n \<in> set xs. 0 \<le> n \<and> n < int ncycles))"
    unfolding cycles_in_view_def by (intro exI [of _ xs]) auto
qed

theorem stride_selection_indices_witness:
  "(1::int) \<le> 2 \<and> cycles_in_view 0 9 2 = Inr [0, 2, 4, 6, 8] \<and>
   (0::int) \<le> 0 \<and> (9::int) \<le> int 10 - 1 \<and>
   list_all (\<lambda>n. 0 \<le> n \<and> n < int 10) [0, 2, 4, 6, 8::int]"
  using stride_selection_indices [of 2 0 9 10] by auto

section \<open>Properties of the comparison buffer\<close>

lemma remove_fold_filter:
  "fold (\<lambda>series acc. if experiment_name series \<noteq> name then acc @ [series] else acc) xs acc
   = acc @ filter (\<lambda>series. experiment_name series \<noteq> name) xs"
  by (induction xs arbitrary: acc) auto

lemma remove_experiment_filter:
  "remove_experiment_from_series_buffer name selected_series
   = filter (\<lambda>series. experiment_name series \<noteq> name) selected_series"
  by (simp add: remove_experiment_from_series_buffer_def remove_fold_filter)

lemma duplicate_iff:
  "duplicate name n sel \<longleftrightarrow> (name, n) \<in> series_key ` set sel"
  by (induction sel) (auto simp: series_key_def)

lemma stride_loop_distinct:
  "distinct (map series_key sel) \<Longrightarrow>
   distinct (map series_key (snd (stride_loop gpc cn name p ub ns sel)))"
proof (induction ns arbitrary: sel)
  case Nil
  then show ?case by simp
next
  case (Cons n ns)
  show ?case
  proof (cases "n \<in> set cn \<and> \<not> duplicate name n sel")
    case True
    let ?new = "\<lparr>label = series_label p n, experiment_name = name, cycle_id = n,
                hex_color = gpc (length sel), color_from_base = ub\<rparr>"
    have k: "series_key ?new = (name, n)" by (simp add: series_key_def)
    have "distinct (map series_key (sel @ [?new]))"
      using Cons.prems True by (simp add: duplicate_iff k)
    from Cons.IH [OF this] True show ?thesis by simp
  next
    case False
    then show ?thesis using Cons by auto
  qed
qed

lemma stride_loop_other:
  "filter (\<lambda>s. experiment_name s \<noteq> name) (snd (stride_loop gpc cn name p ub ns sel))
   = filter (\<lambda>s. experiment_name s \<noteq> name) sel"
  by (induction ns arbitrary: sel) auto

lemma stride_loop_count:
  "length (filter (\<lambda>s. series_key s = (name, k)) sel) \<le> 1 \<Longrightarrow>
   length (filter (\<lambda>s. series_key s = (name, k)) (snd (stride_loop gpc cn name p ub ns sel))) \<le> 1"
proof (induction ns arbitrary: sel)
  case Nil
  then show ?case by simp
next
  case (Cons n ns)
  show ?case
  proof (cases "n \<in> set cn \<and> \<not> duplicate name n sel")
    case True
    let ?new = "\<lparr>label = series_label p n, experiment_name = name, cycle_id = n,
                hex_color = gpc (length sel), color_from_base = ub\<rparr>"
    have "filter (\<lambda>s. series_key s = (name, n)) sel = []"
      using True by (auto simp: duplicate_iff filter_empty_conv intro: rev_image_eqI)
    then have "length (filter (\<lambda>s. series_key s = (name, k)) (sel @ [?new])) \<le> 1"
      using Cons.prems by (cases "k = n") (auto simp: series_key_def)
    from Cons.IH [OF this] True show ?thesis by simp
  next
    case False
    then show ?thesis using Cons by auto
  qed
qed

lemma stride_loop_success:
  assumes "set ns \<subseteq> set cn" and "distinct ns"
    and "\<forall>s \<in> set sel. experiment_name s = name \<longrightarrow> cycle_id s \<notin> set ns"
  shows "stride_loop gpc cn name p ub ns sel =
     (None, sel @ map (\<lambda>(k, n). \<lparr>label = series_label p n, experiment_name = name, cycle_id = n,
                hex_color = gpc k, color_from_base = ub\<rparr>) (enumerate (length sel) ns))"
  using assms
proof (induction ns arbitrary: sel)
  case Nil
  then show ?case by simp
next
  case (Cons n ns)
  let ?new = "\<lparr>label = series_label p n, experiment_name = name, cycle_id = n,
                hex_color = gpc (length sel), color_from_base = ub\<rparr>"
  have nd: "\<not> duplicate name n sel"
    using Cons.prems(3) by (auto simp: duplicate_iff series_key_def)
  have "stride_loop gpc cn name p ub ns (sel @ [?new]) =
     (None, (sel @ [?new]) @ map (\<lambda>(k, n). \<lparr>label = series_label p n, experiment_name = name, cycle_id = n,
                hex_color = gpc k, color_from_base = ub\<rparr>) (enumerate (length (sel @ [?new])) ns))"
    using Cons.prems by (intro Cons.IH) auto
  with nd Cons.prems(1) show ?case by simp
qed

lemma ebs_fold:
  "fold (\<lambda>entry d.
            (case d (experiment_name entry) of
               None \<Rightarrow> d(experiment_name entry \<mapsto> [cycle_id entry])
             | Some ids \<Rightarrow> d(experiment_name entry \<mapsto> ids @ [cycle_id entry]))) xs d name
   = (let new = map cycle_id (filter (\<lambda>s. experiment_name s = name) xs) in
      case d name of
        None \<Rightarrow> if new = [] then None else Some new
      | Some ids \<Rightarrow> Some (ids @ new))"
proof (induction xs arbitrary: d)
  case Nil
  then show ?case by (simp split: option.splits)
next
  case (Cons x xs)
  show ?case
    by (cases "d (experiment_name x)"; cases "experiment_name x = name")
       (simp_all add: Cons.IH Let_def split: option.splits)
qed

lemma experiment_based_selection_eq:
  "experiment_based_selection buf name =
     (if name \<in> experiment_name ` set buf
      then Some (map cycle_id (filter (\<lambda>s. experiment_name s = name) buf)) else None)"
proof -
  have "filter (\<lambda>s. experiment_name s = name) buf = [] \<longleftrightarrow> name \<notin> experiment_name ` set buf"
    by (auto simp: filter_empty_conv)
  then show ?thesis
    by (simp add: experiment_based_selection_def ebs_fold Let_def)
qed

lemma list_index_append:
  "x \<notin> set xs \<Longrightarrow> list_index (xs @ x # ys) x = Inr (length xs)"
  by (induction xs) auto

lemma list_index_found:
  "x \<in> set xs \<Longrightarrow> \<exists>i. list_index xs x = Inr i \<and> i < length xs \<and> xs ! i = x"
proof (induction xs)
  case Nil
  then show ?case by simp
next
  case (Cons y ys)
  show ?case
  proof (cases "y = x")
    case True
    then show ?thesis by simp
  next
    case False
    with Cons obtain i where "list_index ys x = Inr i" "i < length ys" "ys ! i = x" by auto
    with False show ?thesis by simp
  qed
qed

lemma ids_distinct:
  assumes "distinct (map series_key buf)"
  shows "distinct (map cycle_id (filter (\<lambda>s. experiment_name s = name) buf))"
proof -
  have "distinct (map series_key (filter (\<lambda>s. experiment_name s = name) buf))"
    using assms by (rule distinct_map_filter)
  moreover have "map series_key (filter (\<lambda>s. experiment_name s = name) buf)
      = map (\<lambda>n. (name, n)) (map cycle_id (filter (\<lambda>s. experiment_name s = name) buf))"
    by (induction buf) (auto simp: series_key_def)
  ultimately have "distinct (map (\<lambda>n. (name, n)) (map cycle_id (filter (\<lambda>s. experiment_name s = name) buf)))"
    by simp
  then show ?thesis by (auto simp: distinct_map inj_on_def)
qed

lemma rank_index:
  assumes "distinct (map series_key buf)" and "i < length buf"
  shows "list_index (map cycle_id (filter (\<lambda>s. experiment_name s = experiment_name (buf ! i)) buf))
           (cycle_id (buf ! i))
         = Inr (length (filter (\<lambda>s. experiment_name s = experiment_name (buf ! i)) (take i buf)))"
proof -
  let ?P = "\<lambda>s. experiment_name s = experiment_name (buf ! i)"
  have split: "buf = take i buf @ buf ! i # drop (Suc i) buf"
    using assms(2) by (simp add: id_take_nth_drop)
  have ids: "map cycle_id (filter ?P buf) =
      map cycle_id (filter ?P (take i buf)) @ cycle_id (buf ! i) # map cycle_id (filter ?P (drop (Suc i) buf))"
    by (subst split) simp
  have "distinct (map cycle_id (filter ?P buf))"
    using assms(1) by (rule ids_distinct)
  then have "cycle_id (buf ! i) \<notin> set (map cycle_id (filter ?P (take i buf)))"
    unfolding ids by simp
  from list_index_append [OF this] show ?thesis
    unfolding ids by simp
qed

text \<open>
  C8. Removal by experiment name deletes exactly the series whose experiment name is the
  given one: the result is the buffer filtered to the other experiments, so every series
  of another experiment is kept unchanged and in its original relative order. Deleting an
  experiment in the file manager removes its series from the buffer in the same way.
\<close>

theorem remove_experiment_exact:
  "remove_experiment_from_series_buffer name buffer
     = filter (\<lambda>series. experiment_name series \<noteq> name) buffer \<and>
   set (remove_experiment_from_series_buffer name buffer)
     = {series \<in> set buffer. experiment_name series \<noteq> name} \<and>
   subseq (remove_experiment_from_series_buffer name buffer) buffer \<and>
   filter (\<lambda>series. experiment_name series = other) (remove_experiment_from_series_buffer name buffer)
     = (if other = name then [] else filter (\<lambda>series. experiment_name series = other) buffer) \<and>
   comparison_plot (delete_experiment name s)
     = remove_experiment_from_series_buffer name (comparison_plot s)"
proof -
  have "filter (\<lambda>series. experiment_name series = other)
          (filter (\<lambda>series. experiment_name series \<noteq> name) buffer)
        = (if other = name then [] else filter (\<lambda>series. experiment_name series = other) buffer)"
    by (induction buffer) auto
  moreover have "comparison_plot (delete_experiment name s)
     = filter (\<lambda>series. experiment_name series \<noteq> name) (comparison_plot s)"
    by (simp add: delete_experiment_def remove_experiment_entries_def Let_def)
  ultimately show ?thesis
    by (simp add: remove_experiment_filter)
qed

text \<open>
  The stride-based selector does not keep a series that is already in the buffer for a
  generated index: with a series labelled \<open>mine\<close> for cycle 0 of experiment \<open>A\<close> in the
  buffer, applying start 0, stop 1, stride 1 to \<open>A\<close> replaces it by a fresh series.
\<close>

theorem stride_apply_keeps_existing_counterexample:
  "comparison_stride_apply ((!) [''#636EFA'', ''#EF553B'']) [0, 1] ''A'' ''A'' True 0 1 1
     [\<lparr>label = ''mine'', experiment_name = ''A'', cycle_id = 0, hex_color = ''#000000'',
       color_from_base = False\<rparr>]
   = (None,
      [\<lparr>label = ''A [0]'', experiment_name = ''A'', cycle_id = 0, hex_color = ''#636EFA'',
        color_from_base = True\<rparr>,
       \<lparr>label = ''A [1]'', experiment_name = ''A'', cycle_id = 1, hex_color = ''#EF553B'',
        color_from_base = True\<rparr>]) \<and>
   \<lparr>label = ''mine'', experiment_name = ''A'', cycle_id = 0, hex_color = ''#000000'',
       color_from_base = False\<rparr>
   \<notin> set (snd (comparison_stride_apply ((!) [''#636EFA'', ''#EF553B'']) [0, 1] ''A'' ''A'' True 0 1 1
     [\<lparr>label = ''mine'', experiment_name = ''A'', cycle_id = 0, hex_color = ''#000000'',
       color_from_base = False\<rparr>]))"
  by code_simp

lemma stride_apply_success:
  assumes "1 \<le> stride" and "cycles_in_view start stop stride = Inr ns"
    and "set ns \<subseteq> set cycle_numbers"
  shows "comparison_stride_apply get_plotly_color cycle_numbers name label_prefix use_base_color
           start stop stride buffer =
         (None,
          filter (\<lambda>series. experiment_name series \<noteq> name) buffer @
          map (\<lambda>(k, n). \<lparr>label = series_label label_prefix n, experiment_name = name,
                 cycle_id = n, hex_color = get_plotly_color k,
                 color_from_base = use_base_color\<rparr>)
            (enumerate (length (filter (\<lambda>series. experiment_name series \<noteq> name) buffer)) ns))"
proof -
  have ar: "arange start (stop + 1) stride = Inr ns"
    using assms(2) by (simp add: cycles_in_view_def)
  have "sorted_wrt (<) ns" by (rule arange_sorted [OF assms(1) ar])
  then have d: "distinct ns" by (simp add: strict_sorted_iff)
  have "\<forall>s \<in> set (filter (\<lambda>series. experiment_name series \<noteq> name) buffer).
          experiment_name s = name \<longrightarrow> cycle_id s \<notin> set ns"
    by simp
  from stride_loop_success [OF assms(3) d this] show ?thesis
    by (simp add: comparison_stride_apply_def ar remove_experiment_filter)
qed

lemma stride_apply_count:
  "length (filter (\<lambda>s. series_key s = (name, k))
     (snd (comparison_stride_apply gpc cn name p ub start stop stride buffer))) \<le> 1"
proof -
  let ?cleared = "remove_experiment_from_series_buffer name buffer"
  have "filter (\<lambda>s. series_key s = (name, k)) ?cleared = []"
    by (auto simp: remove_experiment_filter filter_empty_conv series_key_def)
  then have c: "length (filter (\<lambda>s. series_key s = (name, k)) ?cleared) \<le> 1" by simp
  show ?thesis
  proof (cases "arange start (stop + 1) stride")
    case (Inl e)
    with c show ?thesis by (simp add: comparison_stride_apply_def)
  next
    case (Inr ns)
    with stride_loop_count [OF c] show ?thesis by (simp add: comparison_stride_apply_def)
  qed
qed

lemma stride_apply_distinct:
  assumes "distinct (map series_key buffer)"
  shows "distinct (map series_key
     (snd (comparison_stride_apply gpc cn name p ub start stop stride buffer)))"
proof -
  let ?cleared = "remove_experiment_from_series_buffer name buffer"
  have c: "distinct (map series_key ?cleared)"
    using assms by (simp add: remove_experiment_filter distinct_map_filter)
  show ?thesis
  proof (cases "arange start (stop + 1) stride")
    case (Inl e)
    with c show ?thesis by (simp add: comparison_stride_apply_def)
  next
    case (Inr ns)
    with stride_loop_distinct [OF c] show ?thesis by (simp add: comparison_stride_apply_def)
  qed
qed

lemma stride_apply_present:
  assumes "1 \<le> stride" and "cycles_in_view start stop stride = Inr ns"
    and "set ns \<subseteq> set cn" and "n \<in> set ns"
  shows "length (filter (\<lambda>s. series_key s = (name, n))
     (snd (comparison_stride_apply gpc cn name p ub start stop stride buffer))) = 1"
proof -
  let ?res = "snd (comparison_stride_apply gpc cn name p ub start stop stride buffer)"
  let ?kept = "filter (\<lambda>series. experiment_name series \<noteq> name) buffer"
  from assms(4) obtain i where i: "i < length ns" "ns ! i = n"
    by (auto simp: in_set_conv_nth)
  then have "(length ?kept + i, n) \<in> set (enumerate (length ?kept) ns)"
    by (auto simp: in_set_enumerate_eq)
  then have "\<lparr>label = series_label p n, experiment_name = name, cycle_id = n,
        hex_color = gpc (length ?kept + i), color_from_base = ub\<rparr> \<in> set ?res"
    unfolding stride_apply_success [OF assms(1-3)] by force
  then have "filter (\<lambda>s. series_key s = (name, n)) ?res \<noteq> []"
    by (force simp: filter_empty_conv series_key_def)
  then have "1 \<le> length (filter (\<lambda>s. series_key s = (name, n)) ?res)"
    by (simp add: Suc_le_eq)
  with stride_apply_count [of name n gpc cn p ub start stop stride buffer]
  show ?thesis by linarith
qed

lemma stride_loop_general:
  assumes "distinct ns"
    and "\<forall>s \<in> set sel. experiment_name s = name \<longrightarrow> cycle_id s \<notin> set ns"
  shows "stride_loop gpc cn name p ub ns sel =
     (if set ns \<subseteq> set cn then None else Some ValueError,
      sel @ map (\<lambda>(k, n). \<lparr>label = series_label p n, experiment_name = name, cycle_id = n,
                hex_color = gpc k, color_from_base = ub\<rparr>)
              (enumerate (length sel) (takeWhile (\<lambda>n. n \<in> set cn) ns)))"
  using assms
proof (induction ns arbitrary: sel)
  case Nil
  then show ?case by simp
next
  case (Cons n ns)
  show ?case
  proof (cases "n \<in> set cn")
    case False
    then show ?thesis by simp
  next
    case True
    let ?new = "\<lparr>label = series_label p n, experiment_name = name, cycle_id = n,
                hex_color = gpc (length sel), color_from_base = ub\<rparr>"
    have nd: "\<not> duplicate name n sel"
      using Cons.prems(2) by (auto simp: duplicate_iff series_key_def)
    have d: "distinct ns" and fresh: "n \<notin> set ns" using Cons.prems(1) by simp_all
    have "\<forall>s \<in> set (sel @ [?new]). experiment_name s = name \<longrightarrow> cycle_id s \<notin> set ns"
      using Cons.prems(2) fresh by auto
    from Cons.IH [OF d this] nd True show ?thesis by simp
  qed
qed

lemma stride_apply_general:
  assumes "1 \<le> stride" and "cycles_in_view start stop stride = Inr ns"
  shows "comparison_stride_apply gpc cn name p ub start stop stride buffer =
     (if set ns \<subseteq> set cn then None else Some ValueError,
      filter (\<lambda>series. experiment_name series \<noteq> name) buffer @
      map (\<lambda>(k, n). \<lparr>label = series_label p n, experiment_name = name, cycle_id = n,
                hex_color = gpc k, color_from_base = ub\<rparr>)
        (enumerate (length (filter (\<lambda>series. experiment_name series \<noteq> name) buffer))
           (takeWhile (\<lambda>n. n \<in> set cn) ns)))"
proof -
  have ar: "arange start (stop + 1) stride = Inr ns"
    using assms(2) by (simp add: cycles_in_view_def)
  have "sorted_wrt (<) ns" by (rule arange_sorted [OF assms(1) ar])
  then have d: "distinct ns" by (simp add: strict_sorted_iff)
  have "\<forall>s \<in> set (filter (\<lambda>series. experiment_name series \<noteq> name) buffer).
          experiment_name s = name \<longrightarrow> cycle_id s \<notin> set ns"
    by simp
  from stride_loop_general [OF d this] show ?thesis
    by (simp add: comparison_stride_apply_def ar remove_experiment_filter)
qed

text \<open>
  C5 (as the code has it). For every buffer, chosen experiment, start, stop and stride of
  at least 1, stride-based population generates the cycle indices
  arange(start, stop + 1, stride). It first removes every series of the chosen experiment
  from the buffer; the series of the other experiments stay, unchanged and in order,
  whether or not the generated indices are cycle numbers. It then appends one new series
  per generated index, in the order generated, up to the first generated index that is
  not a cycle number of the experiment, where ValueError is raised: the label is the
  prefix followed by the index in brackets, the flag is the chosen color_from_base value,
  and the stored colour is the palette colour at the length the buffer has when the
  series is appended. So after the population the series of the chosen experiment are
  exactly the new ones, and when every generated index is a cycle number there is one new
  series for each generated index and no exception.
\<close>

theorem stride_population:
  assumes "1 \<le> stride" and "cycles_in_view start stop stride = Inr ns"
  shows "filter (\<lambda>series. experiment_name series \<noteq> name)
           (snd (comparison_stride_apply get_plotly_color cycle_numbers name label_prefix
                  use_base_color start stop stride buffer))
         = filter (\<lambda>series. experiment_name series \<noteq> name) buffer \<and>
         filter (\<lambda>series. experiment_name series = name)
           (snd (comparison_stride_apply get_plotly_color cycle_numbers name label_prefix
                  use_base_color start stop stride buffer))
         = map (\<lambda>(k, n). \<lparr>label = series_label label_prefix n, experiment_name = name,
                  cycle_id = n, hex_color = get_plotly_color k,
                  color_from_base = use_base_color\<rparr>)
             (enumerate (length (filter (\<lambda>series. experiment_name series \<noteq> name) buffer))
                (takeWhile (\<lambda>n. n \<in> set cycle_numbers) ns)) \<and>
         comparison_stride_apply get_plotly_color cycle_numbers name label_prefix use_base_color
           start stop stride buffer
         = (if set ns \<subseteq> set cycle_numbers then None else Some ValueError,
            filter (\<lambda>series. experiment_name series \<noteq> name) buffer @
            map (\<lambda>(k, n). \<lparr>label = series_label label_prefix n, experiment_name = name,
                   cycle_id = n, hex_color = get_plotly_color k,
                   color_from_base = use_base_color\<rparr>)
              (enumerate (length (filter (\<lambda>series. experiment_name series \<noteq> name) buffer))
                 (takeWhile (\<lambda>n. n \<in> set cycle_numbers) ns))) \<and>
         (set ns \<subseteq> set cycle_numbers \<longrightarrow>
            comparison_stride_apply get_plotly_color cycle_numbers name label_prefix
              use_base_color start stop stride buffer
            = (None,
               filter (\<lambda>series. experiment_name series \<noteq> name) buffer @
               map (\<lambda>(k, n). \<lparr>label = series_label label_prefix n, experiment_name = name,
                      cycle_id = n, hex_color = get_plotly_color k,
                      color_from_base = use_base_color\<rparr>)
                 (enumerate (length (filter (\<lambda>series. experiment_name series \<noteq> name) buffer))
                    ns)))"
proof -
  let ?kept = "filter (\<lambda>series. experiment_name series \<noteq> name) buffer"
  let ?mk = "\<lambda>(k, n). \<lparr>label = series_label label_prefix n, experiment_name = name,
                  cycle_id = n, hex_color = get_plotly_color k,
                  color_from_base = use_base_color\<rparr>"
  let ?new = "map ?mk (enumerate (length ?kept) (takeWhile (\<lambda>n. n \<in> set cycle_numbers) ns))"
  let ?R = "comparison_stride_apply get_plotly_color cycle_numbers name label_prefix
              use_base_color start stop stride buffer"
  have g: "?R = (if set ns \<subseteq> set cycle_numbers then None else Some ValueError, ?kept @ ?new)"
    by (rule stride_apply_general [OF assms])
  have newname: "\<forall>s \<in> set ?new. experiment_name s = name" by auto
  then have n1: "filter (\<lambda>series. experiment_name series \<noteq> name) ?new = []"
    by (simp only: filter_empty_conv) blast
  have n2: "filter (\<lambda>series. experiment_name series = name) ?new = ?new"
    using newname by (simp only: filter_id_conv)
  have k1: "filter (\<lambda>series. experiment_name series \<noteq> name) ?kept = ?kept" by simp
  have k2: "filter (\<lambda>series. experiment_name series = name) ?kept = []"
    by (simp add: filter_empty_conv)
  have s: "snd ?R = ?kept @ ?new" by (simp only: g snd_conv)
  have 1: "filter (\<lambda>series. experiment_name series \<noteq> name) (snd ?R) = ?kept"
    by (simp only: s filter_append k1 n1 append_Nil2)
  have 2: "filter (\<lambda>series. experiment_name series = name) (snd ?R) = ?new"
    by (simp only: s filter_append k2 n2 append_Nil)
  have 4: "set ns \<subseteq> set cycle_numbers \<longrightarrow>
      ?R = (None, ?kept @ map ?mk (enumerate (length ?kept) ns))"
  proof
    assume sub: "set ns \<subseteq> set cycle_numbers"
    then have "takeWhile (\<lambda>n. n \<in> set cycle_numbers) ns = ns"
      by (simp add: takeWhile_eq_all_conv subset_iff)
    with g sub show "?R = (None, ?kept @ map ?mk (enumerate (length ?kept) ns))" by simp
  qed
  from 1 2 g 4 show ?thesis by (intro conjI) assumption+
qed

theorem stride_population_witness:
  "(1::int) \<le> 1 \<and> cycles_in_view 0 1 1 = Inr [0, 1] \<and> set [0, 1 :: int] \<subseteq> set [0, 1, 2] \<and>
   comparison_stride_apply (\<lambda>k. ''#636EFA'') [0, 1, 2] ''A'' ''run'' True 0 1 1
     [\<lparr>label = ''b'', experiment_name = ''B'', cycle_id = 0, hex_color = ''#000000'',
       color_from_base = False\<rparr>,
      \<lparr>label = ''mine'', experiment_name = ''A'', cycle_id = 0, hex_color = ''#000000'',
       color_from_base = False\<rparr>]
   = (None,
      [\<lparr>label = ''b'', experiment_name = ''B'', cycle_id = 0, hex_color = ''#000000'',
        color_from_base = False\<rparr>,
       \<lparr>label = ''run [0]'', experiment_name = ''A'', cycle_id = 0, hex_color = ''#636EFA'',
        color_from_base = True\<rparr>,
       \<lparr>label = ''run [1]'', experiment_name = ''A'', cycle_id = 1, hex_color = ''#636EFA'',
        color_from_base = True\<rparr>]) \<and>
   comparison_stride_apply (\<lambda>k. ''#636EFA'') [0] ''A'' ''run'' True 0 1 1
     [\<lparr>label = ''b'', experiment_name = ''B'', cycle_id = 0, hex_color = ''#000000'',
       color_from_base = False\<rparr>,
      \<lparr>label = ''mine'', experiment_name = ''A'', cycle_id = 0, hex_color = ''#000000'',
       color_from_base = False\<rparr>]
   = (Some ValueError,
      [\<lparr>label = ''b'', experiment_name = ''B'', cycle_id = 0, hex_color = ''#000000'',
        color_from_base = False\<rparr>,
       \<lparr>label = ''run [0]'', experiment_name = ''A'', cycle_id = 0, hex_color = ''#636EFA'',
        color_from_base = True\<rparr>])"
proof -
  let ?buffer = "[\<lparr>label = ''b'', experiment_name = ''B'', cycle_id = 0, hex_color = ''#000000'',
       color_from_base = False\<rparr>,
      \<lparr>label = ''mine'', experiment_name = ''A'', cycle_id = 0, hex_color = ''#000000'',
       color_from_base = False\<rparr>]"
  have a: "(1::int) \<le> 1" by simp
  have b: "cycles_in_view 0 1 1 = Inr [0, 1]"
    by (simp add: cycles_in_view_def arange_def upt_conv_Cons)
  have c: "set [0, 1 :: int] \<subseteq> set [0, 1, 2]" by simp
  have l: "series_label ''run'' 0 = ''run [0]''" "series_label ''run'' 1 = ''run [1]''"
    by (simp_all add: series_label_def str_int_def str_nat.simps digit_char_def)
  note ok = stride_population [OF a b, of "''A''" "\<lambda>k. ''#636EFA''" "[0, 1, 2]" "''run''" True ?buffer,
      THEN conjunct2, THEN conjunct2, THEN conjunct2]
  note ko = stride_population [OF a b, of "''A''" "\<lambda>k. ''#636EFA''" "[0]" "''run''" True ?buffer,
      THEN conjunct2, THEN conjunct2, THEN conjunct1]
  have d: "comparison_stride_apply (\<lambda>k. ''#636EFA'') [0, 1, 2] ''A'' ''run'' True 0 1 1 ?buffer
   = (None,
      [\<lparr>label = ''b'', experiment_name = ''B'', cycle_id = 0, hex_color = ''#000000'',
        color_from_base = False\<rparr>,
       \<lparr>label = ''run [0]'', experiment_name = ''A'', cycle_id = 0, hex_color = ''#636EFA'',
        color_from_base = True\<rparr>,
       \<lparr>label = ''run [1]'', experiment_name = ''A'', cycle_id = 1, hex_color = ''#636EFA'',
        color_from_base = True\<rparr>])"
    using ok c by (simp add: l)
  have e: "comparison_stride_apply (\<lambda>k. ''#636EFA'') [0] ''A'' ''run'' True 0 1 1 ?buffer
   = (Some ValueError,
      [\<lparr>label = ''b'', experiment_name = ''B'', cycle_id = 0, hex_color = ''#000000'',
        color_from_base = False\<rparr>,
       \<lparr>label = ''run [0]'', experiment_name = ''A'', cycle_id = 0, hex_color = ''#636EFA'',
        color_from_base = True\<rparr>])"
    using ko by (simp add: l)
  from a b c d e show ?thesis by (intro conjI) assumption+
qed

text \<open>
  C6. After a stride-based population the buffer holds at most one series for every cycle
  index of the chosen experiment, whatever the buffer was before; a buffer without two
  series for the same (experiment name, cycle index) pair stays so; and populating a
  second time with the same range (whatever the label prefix, flag and palette) leaves
  exactly one series for each generated pair.
\<close>

theorem stride_population_unique:
  "(\<forall>n. length (filter (\<lambda>s. series_key s = (name, n))
           (snd (comparison_stride_apply gpc cn name p ub start stop stride buffer))) \<le> 1) \<and>
   (distinct (map series_key buffer) \<longrightarrow>
      distinct (map series_key
        (snd (comparison_stride_apply gpc cn name p ub start stop stride buffer)))) \<and>
   (1 \<le> stride \<and> cycles_in_view start stop stride = Inr ns \<and> set ns \<subseteq> set cn \<longrightarrow>
      (\<forall>n \<in> set ns.
         length (filter (\<lambda>s. series_key s = (name, n))
           (snd (comparison_stride_apply gpc' cn name p' ub' start stop stride
             (snd (comparison_stride_apply gpc cn name p ub start stop stride buffer))))) = 1))"
proof (intro conjI allI impI ballI)
  fix n
  show "length (filter (\<lambda>s. series_key s = (name, n))
           (snd (comparison_stride_apply gpc cn name p ub start stop stride buffer))) \<le> 1"
    by (rule stride_apply_count)
next
  assume "distinct (map series_key buffer)"
  then show "distinct (map series_key
        (snd (comparison_stride_apply gpc cn name p ub start stop stride buffer)))"
    by (rule stride_apply_distinct)
next
  fix n
  assume h: "1 \<le> stride \<and> cycles_in_view start stop stride = Inr ns \<and> set ns \<subseteq> set cn"
    and n: "n \<in> set ns"
  from h n show "length (filter (\<lambda>s. series_key s = (name, n))
           (snd (comparison_stride_apply gpc' cn name p' ub' start stop stride
             (snd (comparison_stride_apply gpc cn name p ub start stop stride buffer))))) = 1"
    by (intro stride_apply_present) auto
qed

theorem stride_population_unique_witness:
  "distinct (map series_key
      [\<lparr>label = ''b'', experiment_name = ''B'', cycle_id = 0, hex_color = ''#000000'',
        color_from_base = False\<rparr>]) \<and>
   distinct (map series_key
      (snd (comparison_stride_apply (\<lambda>k. ''#636EFA'') [0, 1, 2] ''A'' ''run'' True 0 1 1
        [\<lparr>label = ''b'', experiment_name = ''B'', cycle_id = 0, hex_color = ''#000000'',
          color_from_base = False\<rparr>]))) \<and>
   (1::int) \<le> 1 \<and> cycles_in_view 0 1 1 = Inr [0, 1] \<and> set [0, 1 :: int] \<subseteq> set [0, 1, 2] \<and>
   list_all (\<lambda>n. length (filter (\<lambda>s. series_key s = (''A'', n))
       (snd (comparison_stride_apply (\<lambda>k. ''#636EFA'') [0, 1, 2] ''A'' ''again'' False 0 1 1
         (snd (comparison_stride_apply (\<lambda>k. ''#636EFA'') [0, 1, 2] ''A'' ''run'' True 0 1 1
           [\<lparr>label = ''b'', experiment_name = ''B'', cycle_id = 0, hex_color = ''#000000'',
             color_from_base = False\<rparr>]))))) = 1) [0, 1]"
proof -
  have a: "distinct (map series_key
      [\<lparr>label = ''b'', experiment_name = ''B'', cycle_id = 0, hex_color = ''#000000'',
        color_from_base = False\<rparr>])" by simp
  have b: "(1::int) \<le> 1 \<and> cycles_in_view 0 1 1 = Inr [0, 1] \<and> set [0, 1 :: int] \<subseteq> set [0, 1, 2]"
    by (simp add: cycles_in_view_def arange_def upt_conv_Cons)
  show ?thesis
    using a b stride_population_unique [of "''A''" "\<lambda>k. ''#636EFA''" "[0, 1, 2]" "''run''" True 0 1 1
      "[\<lparr>label = ''b'', experiment_name = ''B'', cycle_id = 0, hex_color = ''#000000'',
        color_from_base = False\<rparr>]" "[0, 1]" "\<lambda>k. ''#636EFA''" "''again''" False]
    by simp
qed

text \<open>
  C7. For every series of the buffer whose experiment is registered and whose cycle
  exists, the colour of its trace is determined as follows. When color_from_base is true
  it is the shade computed by the shading function from the base colour of the
  experiment, the position of the series' cycle id among the cycle ids of the buffered
  series of the same experiment, and the number of those series; the stored hex colour
  plays no part. When color_from_base is false it is the stored hex colour. In a buffer
  without two series for the same (experiment name, cycle index) pair, that position is
  the rank of the series among the buffered series of its experiment.
\<close>

theorem trace_color_resolution:
  assumes "i < length buffer"
    and "registry (experiment_name (buffer ! i)) = Some (color, ncycles)"
    and "- int ncycles \<le> cycle_id (buffer ! i)" and "cycle_id (buffer ! i) < int ncycles"
  shows "\<exists>trace_id.
     list_index (map cycle_id (filter (\<lambda>s. experiment_name s = experiment_name (buffer ! i)) buffer))
       (cycle_id (buffer ! i)) = Inr trace_id \<and>
     trace_color registry get_shade RGB_to_HEX reverse buffer (buffer ! i) =
       Inr (if color_from_base (buffer ! i)
            then RGB_to_HEX (get_shade color trace_id
                   (length (filter (\<lambda>s. experiment_name s = experiment_name (buffer ! i)) buffer))
                   reverse)
            else hex_color (buffer ! i)) \<and>
     (distinct (map series_key buffer) \<longrightarrow>
        trace_id = length (filter (\<lambda>s. experiment_name s = experiment_name (buffer ! i))
                     (take i buffer)))"
proof -
  let ?e = "buffer ! i"
  let ?ids = "map cycle_id (filter (\<lambda>s. experiment_name s = experiment_name ?e) buffer)"
  have mem: "?e \<in> set buffer" using assms(1) by simp
  then have sel: "experiment_based_selection buffer (experiment_name ?e) = Some ?ids"
    by (simp add: experiment_based_selection_eq)
  have "cycle_id ?e \<in> set ?ids" using mem by auto
  from list_index_found [OF this] obtain t where t: "list_index ?ids (cycle_id ?e) = Inr t"
    by blast
  have col: "trace_color registry get_shade RGB_to_HEX reverse buffer ?e =
       Inr (if color_from_base ?e
            then RGB_to_HEX (get_shade color t
                   (length (filter (\<lambda>s. experiment_name s = experiment_name ?e) buffer)) reverse)
            else hex_color ?e)"
    using assms(2-4) by (simp add: trace_color_def sel t)
  have "distinct (map series_key buffer) \<longrightarrow>
        t = length (filter (\<lambda>s. experiment_name s = experiment_name ?e) (take i buffer))"
    using rank_index [OF _ assms(1)] t by auto
  with t col show ?thesis by blast
qed

theorem trace_color_resolution_witness:
  "(1::nat) < length
      [\<lparr>label = ''a0'', experiment_name = ''A'', cycle_id = 0, hex_color = ''#111111'',
        color_from_base = True\<rparr>,
       \<lparr>label = ''a3'', experiment_name = ''A'', cycle_id = 3, hex_color = ''#222222'',
        color_from_base = True\<rparr>] \<and>
   [''A'' \<mapsto> (''red'', 5::nat)] ''A'' = Some (''red'', 5) \<and>
   - int 5 \<le> 3 \<and> (3::int) < int 5 \<and>
   trace_color [''A'' \<mapsto> (''red'', 5::nat)] (\<lambda>c t n r. (c, t, n, r)) (\<lambda>x. if x = (''red'', 1, 2, False) then ''#aa0000'' else ''#000000'') False
      [\<lparr>label = ''a0'', experiment_name = ''A'', cycle_id = 0, hex_color = ''#111111'',
        color_from_base = True\<rparr>,
       \<lparr>label = ''a3'', experiment_name = ''A'', cycle_id = 3, hex_color = ''#222222'',
        color_from_base = True\<rparr>]
      \<lparr>label = ''a3'', experiment_name = ''A'', cycle_id = 3, hex_color = ''#222222'',
        color_from_base = True\<rparr>
    = Inr ''#aa0000''"
proof -
  let ?b = "[\<lparr>label = ''a0'', experiment_name = ''A'', cycle_id = 0, hex_color = ''#111111'',
        color_from_base = True\<rparr>,
       \<lparr>label = ''a3'', experiment_name = ''A'', cycle_id = 3, hex_color = ''#222222'',
        color_from_base = True\<rparr>]"
  have a: "(1::nat) < length ?b" by simp
  have b: "[''A'' \<mapsto> (''red'', 5::nat)] (experiment_name (?b ! 1)) = Some (''red'', 5)" by simp
  have c: "- int 5 \<le> cycle_id (?b ! 1)" by simp
  have d: "cycle_id (?b ! 1) < int 5" by simp
  note r = trace_color_resolution [where i = 1 and buffer = "?b"
      and registry = "[''A'' \<mapsto> (''red'', 5::nat)]" and color = "''red''" and ncycles = 5
      and get_shade = "\<lambda>c t n r. (c, t, n, r)"
      and RGB_to_HEX = "\<lambda>x. if x = (''red'', 1, 2, False) then ''#aa0000'' else ''#000000''" and reverse = False]
  from r [OF a b c d] show ?thesis by (auto simp: series_key_def)
qed

section \<open>Properties of the metric-series accessor\<close>

text \<open>
  C10. For every half-cycle and every metric name of the closed set time, voltage,
  current, charge, power, energy the accessor returns a (label, series) pair, and it
  raises ValueError for any other name. Time and voltage are returned unnormalised
  whatever factors are given. Without the relevant factor, current, charge, power and
  energy come back in raw units. With an area, current is divided by it (current density)
  and power, scaled by 1000, is divided by it (power density); with a volume, energy is
  divided by 1000 times the volume (energy density) and charge is divided by 1000 times
  the volume into a different unit (volumetric capacity).
\<close>

theorem get_halfcycle_series_cases:
  "get_halfcycle_series ops hc ''time'' volume area = Inr (''Time (s)'', time hc) \<and>
   get_halfcycle_series ops hc ''voltage'' volume area = Inr (''Voltage (V)'', voltage hc) \<and>
   get_halfcycle_series ops hc ''current'' volume None = Inr (''Current (A)'', current hc) \<and>
   get_halfcycle_series ops hc ''charge'' None area = Inr (''Capacity (mAh)'', Q hc) \<and>
   get_halfcycle_series ops hc ''power'' volume None = Inr (''Power (W)'', power_hc hc) \<and>
   get_halfcycle_series ops hc ''energy'' None area = Inr (''Energy (mWh)'', energy hc) \<and>
   get_halfcycle_series ops hc ''current'' volume (Some a) =
     Inr (''Current density (A/cm<sup>2</sup>)'', series_div ops (current hc) a) \<and>
   get_halfcycle_series ops hc ''power'' volume (Some a) =
     Inr (''Power density (mW/cm<sup>2</sup>)'', series_div ops (series_scale ops 1000 (power_hc hc)) a) \<and>
   get_halfcycle_series ops hc ''energy'' (Some v) area =
     Inr (''Energy density (Wh/L)'', series_div ops (energy hc) (float_scale ops 1000 v)) \<and>
   get_halfcycle_series ops hc ''charge'' (Some v) area =
     Inr (''Volumetric capacity (Ah/L)'', series_div ops (Q hc) (float_scale ops 1000 v)) \<and>
   ((\<exists>r. get_halfcycle_series ops hc title volume area = Inr r) = (title \<in> set HALFCYCLE_SERIES)) \<and>
   ((get_halfcycle_series ops hc title volume area = Inl ValueError) = (title \<notin> set HALFCYCLE_SERIES))"
proof -
  have 1: "(\<exists>r. get_halfcycle_series ops hc title volume area = Inr r) = (title \<in> set HALFCYCLE_SERIES)"
    by (simp add: get_halfcycle_series_def HALFCYCLE_SERIES_def split: option.splits)
  have 2: "(get_halfcycle_series ops hc title volume area = Inl ValueError) = (title \<notin> set HALFCYCLE_SERIES)"
    by (simp add: get_halfcycle_series_def HALFCYCLE_SERIES_def split: option.splits)
  show ?thesis
    unfolding 1 2 by (simp add: get_halfcycle_series_def)
qed

section \<open>Properties of the ordering table\<close>

lemma update_fresh: "k \<notin> fst ` set al \<Longrightarrow> AList.update k v al = al @ [(k, v)]"
  by (induction al) auto

lemma table_body_fold:
  assumes "distinct (map fst rows)" and "fst ` set rows \<inter> fst ` set acc = {}"
  shows "fold (\<lambda>(filename, new_cycle, new_halfcycle) (max_cycle, ordering_buffer).
             (max max_cycle new_cycle,
              AList.update filename (new_cycle, new_halfcycle) ordering_buffer))
       rows (m, acc) = (Max (insert m ((\<lambda>(f, c, h). c) ` set rows)), acc @ rows)"
  using assms
proof (induction rows arbitrary: m acc)
  case Nil
  then show ?case by simp
next
  case (Cons r rows)
  obtain f c h where r: "r = (f, c, h)" by (cases r)
  have fresh: "f \<notin> fst ` set acc" using Cons.prems(2) r by auto
  have d: "distinct (map fst rows)" using Cons.prems(1) by simp
  have disj: "fst ` set rows \<inter> fst ` set (acc @ [(f, c, h)]) = {}"
    using Cons.prems r by auto
  have "Max (insert (max m c) ((\<lambda>(f, c, h). c) ` set rows))
      = Max (insert m ((\<lambda>(f, c, h). c) ` set (r # rows)))"
  proof -
    have fin: "finite ((\<lambda>(f, c, h). c) ` set rows)" by simp
    have "insert m ((\<lambda>(f, c, h). c) ` set (r # rows)) = insert m (insert c ((\<lambda>(f, c, h). c) ` set rows))"
      by (simp add: r)
    moreover have "Max (insert m (insert c ((\<lambda>(f, c, h). c) ` set rows)))
        = max m (Max (insert c ((\<lambda>(f, c, h). c) ` set rows)))"
      using fin by simp
    moreover have "Max (insert (max m c) ((\<lambda>(f, c, h). c) ` set rows))
        = max m (Max (insert c ((\<lambda>(f, c, h). c) ` set rows)))"
      using fin by (cases "(\<lambda>(f, c, h). c) ` set rows = {}") (simp_all add: max.assoc)
    ultimately show ?thesis by simp
  qed
  with Cons.IH [OF d disj, of "max m c"] fresh show ?case
    by (simp add: r update_fresh)
qed

lemma table_body_distinct:
  "distinct (map fst rows) \<Longrightarrow>
   table_body rows = (Max (insert 0 ((\<lambda>(f, c, h). c) ` set rows)), rows)"
  using table_body_fold [of rows "[]" 0] by (simp add: table_body_def)

lemma fill_total:
  assumes "\<forall>(f, c, h) \<in> set es. c < length cbb"
  shows "\<exists>rep' cbb'. fill_cycle_based_buffer es (rep, cbb) = Inr (rep', cbb') \<and>
           length cbb' = length cbb \<and>
           (\<forall>c < length cbb. fst ` set (cbb' ! c) = fst ` set (cbb ! c) \<union> {h. \<exists>f. (f, c, h) \<in> set es}) \<and>
           (\<forall>c < length cbb. snd ` set (cbb' ! c) \<subseteq> snd ` set (cbb ! c) \<union> fst ` set es) \<and>
           (rep' \<longleftrightarrow> rep \<or> \<not> distinct (map snd es) \<or> (\<exists>(f, c, h) \<in> set es. h \<in> fst ` set (cbb ! c)))"
  using assms
proof (induction es arbitrary: rep cbb)
  case Nil
  then show ?case by simp
next
  case (Cons e es)
  obtain f c h where e: "e = (f, c, h)" by (cases e)
  let ?cbb1 = "cbb[c := AList.update h f (cbb ! c)]"
  let ?rep1 = "rep \<or> h \<in> set (map fst (cbb ! c))"
  have c: "c < length cbb" using Cons.prems e by auto
  have "\<forall>(f, c, h) \<in> set es. c < length ?cbb1" using Cons.prems by auto
  from Cons.IH [OF this, of ?rep1] obtain rep' cbb' where
    ih: "fill_cycle_based_buffer es (?rep1, ?cbb1) = Inr (rep', cbb') \<and>
         length cbb' = length ?cbb1 \<and>
         (\<forall>c' < length ?cbb1. fst ` set (cbb' ! c') = fst ` set (?cbb1 ! c') \<union> {h. \<exists>f. (f, c', h) \<in> set es}) \<and>
         (\<forall>c' < length ?cbb1. snd ` set (cbb' ! c') \<subseteq> snd ` set (?cbb1 ! c') \<union> fst ` set es) \<and>
         (rep' \<longleftrightarrow> ?rep1 \<or> \<not> distinct (map snd es) \<or> (\<exists>(f, c', h) \<in> set es. h \<in> fst ` set (?cbb1 ! c')))"
    by (elim exE) (rule that)
  note r = ih [THEN conjunct1]
  note l = ih [THEN conjunct2, THEN conjunct1]
  note k = ih [THEN conjunct2, THEN conjunct2, THEN conjunct1]
  note v = ih [THEN conjunct2, THEN conjunct2, THEN conjunct2, THEN conjunct1]
  note p = ih [THEN conjunct2, THEN conjunct2, THEN conjunct2, THEN conjunct2]
  have k1: "fst ` set (?cbb1 ! c') = fst ` set (cbb ! c') \<union> (if c' = c then {h} else {})"
    if "c' < length cbb" for c'
    using that by (auto simp: nth_list_update dom_update)
  have v1: "snd ` set (?cbb1 ! c') \<subseteq> snd ` set (cbb ! c') \<union> {f}"
    if "c' < length cbb" for c'
  proof (cases "c' = c")
    case True
    have "set (AList.update h f al) \<subseteq> set al \<union> {(h, f)}" for al :: "(nat \<times> filename) list"
      by (induction al) auto
    then have "snd ` set (AList.update h f (cbb ! c)) \<subseteq> snd ` (set (cbb ! c) \<union> {(h, f)})"
      by (rule image_mono)
    with True that show ?thesis by (simp add: nth_list_update)
  next
    case False
    with that show ?thesis by (auto simp: nth_list_update)
  qed
  have res: "fill_cycle_based_buffer (e # es) (rep, cbb) = Inr (rep', cbb')"
    using r c by (simp add: e)
  have len: "length cbb' = length cbb" using l by simp
  have keys: "\<forall>c' < length cbb. fst ` set (cbb' ! c') = fst ` set (cbb ! c') \<union> {h. \<exists>f. (f, c', h) \<in> set (e # es)}"
  proof (intro allI impI)
    fix c' assume c': "c' < length cbb"
    then have "fst ` set (cbb' ! c') = fst ` set (?cbb1 ! c') \<union> {h. \<exists>f. (f, c', h) \<in> set es}"
      using k by simp
    with k1 [OF c'] show "fst ` set (cbb' ! c') = fst ` set (cbb ! c') \<union> {h. \<exists>f. (f, c', h) \<in> set (e # es)}"
      by (auto simp: e)
  qed
  have vals: "\<forall>c' < length cbb. snd ` set (cbb' ! c') \<subseteq> snd ` set (cbb ! c') \<union> fst ` set (e # es)"
  proof (intro allI impI)
    fix c' assume c': "c' < length cbb"
    then have "snd ` set (cbb' ! c') \<subseteq> snd ` set (?cbb1 ! c') \<union> fst ` set es"
      using v by simp
    moreover have "fst ` set (e # es) = insert f (fst ` set es)" by (simp add: e)
    moreover note v1 [OF c']
    ultimately show "snd ` set (cbb' ! c') \<subseteq> snd ` set (cbb ! c') \<union> fst ` set (e # es)"
      by blast
  qed
  have inrange: "\<forall>(f, c', h) \<in> set es. c' < length cbb" using Cons.prems by auto
  have hit: "(\<exists>(f', c', h') \<in> set es. h' \<in> fst ` set (?cbb1 ! c'))
      \<longleftrightarrow> (\<exists>(f', c', h') \<in> set es. h' \<in> fst ` set (cbb ! c')) \<or> (c, h) \<in> snd ` set es"
    (is "?L \<longleftrightarrow> ?A \<or> ?B")
  proof
    assume ?L
    then obtain f' c' h' where m: "(f', c', h') \<in> set es" and hh: "h' \<in> fst ` set (?cbb1 ! c')"
      by blast
    from m inrange have "c' < length cbb" by blast
    from k1 [OF this] hh have "h' \<in> fst ` set (cbb ! c') \<or> (c' = c \<and> h' = h)"
      by (simp split: if_splits)
    then show "?A \<or> ?B"
    proof
      assume "h' \<in> fst ` set (cbb ! c')"
      with m have ?A by blast
      then show ?thesis ..
    next
      assume "c' = c \<and> h' = h"
      with m have "(f', c, h) \<in> set es" by simp
      then have ?B by force
      then show ?thesis ..
    qed
  next
    assume "?A \<or> ?B"
    then show ?L
    proof
      assume ?A
      then obtain f' c' h' where m: "(f', c', h') \<in> set es" and hh: "h' \<in> fst ` set (cbb ! c')"
        by blast
      from m inrange have "c' < length cbb" by blast
      from k1 [OF this] hh have "h' \<in> fst ` set (?cbb1 ! c')" by simp
      with m show ?L by blast
    next
      assume ?B
      then obtain f' where m: "(f', c, h) \<in> set es" by force
      from k1 [OF c] have "h \<in> fst ` set (?cbb1 ! c)" by simp
      with m show ?L by blast
    qed
  qed
  have d: "distinct (map snd (e # es)) \<longleftrightarrow> (c, h) \<notin> snd ` set es \<and> distinct (map snd es)"
    by (simp add: e)
  have first: "(\<exists>(f, c, h) \<in> set (e # es). h \<in> fst ` set (cbb ! c))
      \<longleftrightarrow> h \<in> fst ` set (cbb ! c) \<or> (\<exists>(f, c, h) \<in> set es. h \<in> fst ` set (cbb ! c))"
    by (simp add: e)
  have rep: "rep' \<longleftrightarrow> rep \<or> \<not> distinct (map snd (e # es)) \<or>
      (\<exists>(f, c, h) \<in> set (e # es). h \<in> fst ` set (cbb ! c))"
    unfolding p hit d first by auto
  show ?case
    apply (rule exI [of _ rep'], rule exI [of _ cbb'])
    using res len keys vals rep by (intro conjI) assumption+
qed

lemma fill_keeps_repetition:
  "fill_cycle_based_buffer es (rep, cbb) = Inr (rep', cbb') \<Longrightarrow> rep \<Longrightarrow> rep'"
proof (induction es arbitrary: rep cbb)
  case Nil
  then show ?case by simp
next
  case (Cons e es)
  obtain f c h where e: "e = (f, c, h)" by (cases e)
  from Cons.prems(1) have "fill_cycle_based_buffer es
      (rep \<or> h \<in> set (map fst (cbb ! c)), cbb[c := AList.update h f (cbb ! c)]) = Inr (rep', cbb')"
    by (simp add: e split: if_splits)
  from Cons.IH [OF this] Cons.prems(2) show ?case by simp
qed

lemma fill_no_repetition:
  "fill_cycle_based_buffer es (rep, cbb) = Inr (False, cbb') \<Longrightarrow> c < length cbb \<Longrightarrow>
   cbb' ! c = cbb ! c @ map (\<lambda>(f, c, h). (h, f)) (filter (\<lambda>(f, c', h). c' = c) es)"
proof (induction es arbitrary: rep cbb)
  case Nil
  then show ?case by simp
next
  case (Cons e es)
  obtain f d h where e: "e = (f, d, h)" by (cases e)
  let ?cbb1 = "cbb[d := AList.update h f (cbb ! d)]"
  let ?rep1 = "rep \<or> h \<in> set (map fst (cbb ! d))"
  from Cons.prems(1) have d: "d < length cbb"
    and r: "fill_cycle_based_buffer es (?rep1, ?cbb1) = Inr (False, cbb')"
    by (simp_all add: e split: if_splits)
  from fill_keeps_repetition [OF r] have "\<not> ?rep1" by blast
  then have fresh: "h \<notin> fst ` set (cbb ! d)" by simp
  have "cbb' ! c = ?cbb1 ! c @ map (\<lambda>(f, c, h). (h, f)) (filter (\<lambda>(f, c', h). c' = c) es)"
    using Cons.IH [OF r] Cons.prems(2) by simp
  moreover have "?cbb1 ! c = cbb ! c @ (if d = c then [(h, f)] else [])"
    using Cons.prems(2) d fresh by (simp add: nth_list_update update_fresh)
  ultimately show ?case by (simp add: e)
qed

lemma missing_indices_eq:
  "missing_indices cbb = map str_nat (filter (\<lambda>k. cbb ! k = []) [0..<length cbb])"
  unfolding missing_indices_def
proof (induction cbb rule: rev_induct)
  case Nil
  then show ?case by simp
next
  case (snoc x xs)
  have "filter (\<lambda>k. (xs @ [x]) ! k = []) [0..<length xs]
      = filter (\<lambda>k. xs ! k = []) [0..<length xs]"
    by (rule filter_cong [OF refl]) (simp add: nth_append)
  then have "filter (\<lambda>k. (xs @ [x]) ! k = []) [0..<length (xs @ [x])]
      = filter (\<lambda>k. xs ! k = []) [0..<length xs] @ (if x = [] then [length xs] else [])"
    by simp
  with snoc show ?case
    by (simp add: enumerate_append_eq)
qed

lemma is_charge_list_typed:
  "set files \<subseteq> dom ht \<Longrightarrow>
   is_charge_list ht files = Inr (map (\<lambda>f. ht f = Some ''charge'') files)"
proof (induction files)
  case Nil
  then show ?case by simp
next
  case (Cons f files)
  then obtain t where "ht f = Some t" by auto
  with Cons show ?case by simp
qed

lemma any_differs:
  "(case values of [] \<Rightarrow> False | first # _ \<Rightarrow> list_ex (\<lambda>value. value \<noteq> first) values)
   \<longleftrightarrow> (\<exists>x \<in> set values. \<exists>y \<in> set values. x \<noteq> y)"
proof (cases "values")
  case Nil
  then show ?thesis by simp
next
  case (Cons a list)
  have "(\<exists>v \<in> set (a # list). v \<noteq> a) \<longleftrightarrow> (\<exists>x \<in> set (a # list). \<exists>y \<in> set (a # list). x \<noteq> y)"
    by (metis list.set_intros(1))
  with Cons show ?thesis by (simp add: list_ex_iff)
qed

lemma bex_image_differs:
  "(\<exists>x \<in> g ` S. \<exists>y \<in> g ` S. x \<noteq> y) \<longleftrightarrow> (\<exists>x \<in> S. \<exists>y \<in> S. g x \<noteq> g y)"
  by blast

lemma type_mismatch_typed:
  "\<forall>buffer \<in> set cbb. snd ` set buffer \<subseteq> dom ht \<Longrightarrow>
   type_mismatch ht cbb =
     Inr (\<exists>buffer \<in> set cbb. \<exists>x \<in> snd ` set buffer. \<exists>y \<in> snd ` set buffer.
            (ht x = Some ''charge'') \<noteq> (ht y = Some ''charge''))"
proof -
  define g where "g = (\<lambda>f. ht f = Some ''charge'')"
  define D where "D = (\<lambda>b :: (nat \<times> filename) list. \<exists>x \<in> snd ` set b. \<exists>y \<in> snd ` set b. g x \<noteq> g y)"
  have "\<forall>buffer \<in> set cbb. snd ` set buffer \<subseteq> dom ht \<Longrightarrow>
        type_mismatch ht cbb = Inr (\<exists>b \<in> set cbb. D b)"
  proof (induction cbb)
    case Nil
    then show ?case by simp
  next
    case (Cons buffer cbb)
    have "set (map snd buffer) \<subseteq> dom ht" using Cons.prems by simp
    from is_charge_list_typed [OF this]
    have v: "is_charge_list ht (map snd buffer) = Inr (map g (map snd buffer))"
      by (simp only: g_def)
    have "\<forall>buffer \<in> set cbb. snd ` set buffer \<subseteq> dom ht" using Cons.prems by simp
    then have ih: "type_mismatch ht cbb = Inr (\<exists>b \<in> set cbb. D b)"
      by (rule Cons.IH)
    have "set (map g (map snd buffer)) = g ` (snd ` set buffer)"
      by (simp only: set_map)
    then have m: "(\<exists>x \<in> set (map g (map snd buffer)). \<exists>y \<in> set (map g (map snd buffer)). x \<noteq> y)
        \<longleftrightarrow> D buffer"
      by (simp only: bex_image_differs D_def)
    have step: "type_mismatch ht (buffer # cbb) =
        (if D buffer then Inr True else type_mismatch ht cbb)"
      by (simp only: type_mismatch.simps v any_differs m sum.case)
    show ?case
    proof (cases "D buffer")
      case True
      then have "\<exists>b \<in> set (buffer # cbb). D b" by simp
      with step True show ?thesis by (simp only: if_True)
    next
      case False
      then have "(\<exists>b \<in> set (buffer # cbb). D b) \<longleftrightarrow> (\<exists>b \<in> set cbb. D b)" by simp
      with step False ih show ?thesis by (simp only: if_False)
    qed
  qed
  then show "\<forall>buffer \<in> set cbb. snd ` set buffer \<subseteq> dom ht \<Longrightarrow>
   type_mismatch ht cbb =
     Inr (\<exists>buffer \<in> set cbb. \<exists>x \<in> snd ` set buffer. \<exists>y \<in> snd ` set buffer.
            (ht x = Some ''charge'') \<noteq> (ht y = Some ''charge''))"
    by (simp only: D_def g_def)
qed

lemma group_ordering_sorted:
  assumes "b \<noteq> []" and "distinct (map fst b)"
  shows "\<exists>hs. group_ordering b = Inr (map (\<lambda>h. the (map_of b h)) hs) \<and>
           sorted_wrt (<) hs \<and> set hs = fst ` set b"
proof -
  let ?M = "Max (set (map fst b))"
  let ?hs = "filter (\<lambda>i. map_of b i \<noteq> None) [0..<?M + 1]"
  have mf: "List.map_filter f xs = map (\<lambda>x. the (f x)) (filter (\<lambda>x. f x \<noteq> None) xs)"
    for f :: "nat \<Rightarrow> filename option" and xs
    by (simp add: List.map_filter_def comp_def)
  have g: "group_ordering b = Inr (map (\<lambda>h. the (map_of b h)) ?hs)"
    using assms(1) by (simp add: group_ordering_def mf del: upt_Suc)
  have "sorted_wrt (<) [0..<?M + 1]" by (rule sorted_wrt_upt)
  then have s: "sorted_wrt (<) ?hs" by (rule sorted_wrt_filter)
  have "set ?hs = fst ` set b"
  proof (intro set_eqI iffI)
    fix h assume "h \<in> set ?hs"
    then have "map_of b h \<noteq> None" by (simp del: upt_Suc)
    then show "h \<in> fst ` set b" by (simp add: map_of_eq_None_iff)
  next
    fix h assume h: "h \<in> fst ` set b"
    then have "h \<in> set (map fst b)" by simp
    then have "h \<le> ?M" by (intro Max_ge) auto
    moreover have "map_of b h \<noteq> None" using h by (simp add: map_of_eq_None_iff)
    ultimately show "h \<in> set ?hs" by (simp del: upt_Suc)
  qed
  with g s show ?thesis by blast
qed

lemma new_ordering_map:
  assumes "\<forall>b \<in> set cbb. b \<noteq> []"
  shows "\<exists>groups. new_ordering cbb = Inr groups \<and> length groups = length cbb \<and>
           (\<forall>c < length cbb. group_ordering (cbb ! c) = Inr (groups ! c))"
  using assms
proof (induction cbb)
  case Nil
  then show ?case by simp
next
  case (Cons b cbb)
  from Cons obtain groups where g: "new_ordering cbb = Inr groups" "length groups = length cbb"
    "\<forall>c < length cbb. group_ordering (cbb ! c) = Inr (groups ! c)" by auto
  have "b \<noteq> []" using Cons.prems by simp
  then obtain files where f: "group_ordering b = Inr files"
    by (simp add: group_ordering_def)
  have "new_ordering (b # cbb) = Inr (files # groups)" using f g(1) by simp
  moreover have "\<forall>c < length (b # cbb). group_ordering ((b # cbb) ! c) = Inr ((files # groups) ! c)"
    using f g(3) by (auto simp: nth_Cons split: nat.splits)
  ultimately show ?case using g(2) by auto
qed

lemma fill_rows:
  assumes m: "m = Max (insert 0 ((\<lambda>(f, c, h). c) ` set rows))"
  shows "\<exists>rep cbb. fill_cycle_based_buffer rows (False, replicate (m + 1) []) = Inr (rep, cbb) \<and>
           length cbb = m + 1 \<and>
           (rep \<longleftrightarrow> \<not> distinct (map snd rows)) \<and>
           (\<forall>c \<le> m. cbb ! c = [] \<longleftrightarrow> c \<notin> (\<lambda>(f, c, h). c) ` set rows) \<and>
           (\<forall>b \<in> set cbb. snd ` set b \<subseteq> fst ` set rows) \<and>
           (\<not> rep \<longrightarrow>
              (\<forall>c \<le> m. cbb ! c = map (\<lambda>(f, c, h). (h, f)) (filter (\<lambda>(f, c', h). c' = c) rows)))"
proof -
  define init where "init = replicate (m + 1) ([] :: (nat \<times> filename) list)"
  have li: "length init = m + 1" by (simp add: init_def)
  have ni: "init ! c = []" if "c \<le> m" for c using that by (simp add: init_def nth_Cons')
  have le: "c \<le> m" if "(f, c, h) \<in> set rows" for f c h
  proof -
    from that have "c \<in> insert 0 ((\<lambda>(f, c, h). c) ` set rows)" by force
    then show ?thesis unfolding m by (intro Max_ge) auto
  qed
  then have inrange: "\<forall>(f, c, h) \<in> set rows. c < length init"
    unfolding li by (auto simp: less_Suc_eq_le)
  from fill_total [OF inrange, of False] obtain rep cbb where
    ft: "fill_cycle_based_buffer rows (False, init) = Inr (rep, cbb) \<and>
         length cbb = length init \<and>
         (\<forall>c < length init. fst ` set (cbb ! c) = fst ` set (init ! c) \<union> {h. \<exists>f. (f, c, h) \<in> set rows}) \<and>
         (\<forall>c < length init. snd ` set (cbb ! c) \<subseteq> snd ` set (init ! c) \<union> fst ` set rows) \<and>
         (rep \<longleftrightarrow> False \<or> \<not> distinct (map snd rows) \<or> (\<exists>(f, c, h) \<in> set rows. h \<in> fst ` set (init ! c)))"
    by (elim exE) (rule that)
  note r = ft [THEN conjunct1]
  note l = ft [THEN conjunct2, THEN conjunct1]
  note k = ft [THEN conjunct2, THEN conjunct2, THEN conjunct1]
  note v = ft [THEN conjunct2, THEN conjunct2, THEN conjunct2, THEN conjunct1]
  note p = ft [THEN conjunct2, THEN conjunct2, THEN conjunct2, THEN conjunct2]
  have len: "length cbb = m + 1" using l li by simp
  have keys: "fst ` set (cbb ! c) = {h. \<exists>f. (f, c, h) \<in> set rows}" if "c \<le> m" for c
  proof -
    from that li have "c < length init" by simp
    with k have "fst ` set (cbb ! c) = fst ` set (init ! c) \<union> {h. \<exists>f. (f, c, h) \<in> set rows}" by blast
    with ni [OF that] show ?thesis by simp
  qed
  have vals: "snd ` set (cbb ! c) \<subseteq> fst ` set rows" if "c \<le> m" for c
  proof -
    from that li have "c < length init" by simp
    with v have "snd ` set (cbb ! c) \<subseteq> snd ` set (init ! c) \<union> fst ` set rows" by blast
    with ni [OF that] show ?thesis by simp
  qed
  have "\<not> (\<exists>(f, c, h) \<in> set rows. h \<in> fst ` set (init ! c))"
    using le ni by auto
  with p have rep: "rep \<longleftrightarrow> \<not> distinct (map snd rows)" by blast
  have empty: "\<forall>c \<le> m. cbb ! c = [] \<longleftrightarrow> c \<notin> (\<lambda>(f, c, h). c) ` set rows"
  proof (intro allI impI)
    fix c assume c: "c \<le> m"
    have "cbb ! c = [] \<longleftrightarrow> fst ` set (cbb ! c) = {}" by simp
    also have "\<dots> \<longleftrightarrow> {h. \<exists>f. (f, c, h) \<in> set rows} = {}" by (simp only: keys [OF c])
    also have "\<dots> \<longleftrightarrow> c \<notin> (\<lambda>(f, c, h). c) ` set rows" by force
    finally show "cbb ! c = [] \<longleftrightarrow> c \<notin> (\<lambda>(f, c, h). c) ` set rows" .
  qed
  have valsub: "\<forall>b \<in> set cbb. snd ` set b \<subseteq> fst ` set rows"
  proof
    fix b assume "b \<in> set cbb"
    then obtain c where "c < length cbb" "cbb ! c = b" by (auto simp: in_set_conv_nth)
    with vals [of c] len show "snd ` set b \<subseteq> fst ` set rows" by simp
  qed
  have norep: "\<not> rep \<longrightarrow>
      (\<forall>c \<le> m. cbb ! c = map (\<lambda>(f, c, h). (h, f)) (filter (\<lambda>(f, c', h). c' = c) rows))"
  proof (intro impI allI)
    fix c assume "\<not> rep" and c: "c \<le> m"
    with r have "fill_cycle_based_buffer rows (False, init) = Inr (False, cbb)" by simp
    from fill_no_repetition [OF this, of c] c li ni [OF c]
    show "cbb ! c = map (\<lambda>(f, c, h). (h, f)) (filter (\<lambda>(f, c', h). c' = c) rows)" by simp
  qed
  show ?thesis
    apply (rule exI [of _ rep], rule exI [of _ cbb])
    using r [unfolded init_def] len rep empty valsub norep by (intro conjI) assumption+
qed

lemma validate_chain:
  assumes d: "distinct (map fst rows)" and t: "fst ` set rows \<subseteq> dom ht"
    and m: "m = Max (insert 0 ((\<lambda>(f, c, h). c) ` set rows))"
  shows "\<exists>cbb. length cbb = m + 1 \<and>
     (distinct (map snd rows) \<longrightarrow>
        (\<forall>c \<le> m. cbb ! c = map (\<lambda>(f, c, h). (h, f)) (filter (\<lambda>(f, c', h). c' = c) rows))) \<and>
     validate_ordering ht rows =
       (if filter (\<lambda>k. k \<notin> (\<lambda>(f, c, h). c) ` set rows) [0..<m + 1] \<noteq> []
        then Inr (MissingCycleIndices
               (map str_nat (filter (\<lambda>k. k \<notin> (\<lambda>(f, c, h). c) ` set rows) [0..<m + 1])))
        else if \<not> distinct (map snd rows) then Inr SlotRepetition
        else if (\<exists>buffer \<in> set cbb. \<exists>x \<in> snd ` set buffer. \<exists>y \<in> snd ` set buffer.
                   (ht x = Some ''charge'') \<noteq> (ht y = Some ''charge''))
        then Inr HalfcycleTypeMismatch
        else (case new_ordering cbb of Inl e \<Rightarrow> Inl e | Inr groups \<Rightarrow> Inr (Accepted groups)))"
proof -
  from fill_rows [OF m] obtain rep cbb where
    fr: "fill_cycle_based_buffer rows (False, replicate (m + 1) []) = Inr (rep, cbb) \<and>
           length cbb = m + 1 \<and>
           (rep \<longleftrightarrow> \<not> distinct (map snd rows)) \<and>
           (\<forall>c \<le> m. cbb ! c = [] \<longleftrightarrow> c \<notin> (\<lambda>(f, c, h). c) ` set rows) \<and>
           (\<forall>b \<in> set cbb. snd ` set b \<subseteq> fst ` set rows) \<and>
           (\<not> rep \<longrightarrow>
              (\<forall>c \<le> m. cbb ! c = map (\<lambda>(f, c, h). (h, f)) (filter (\<lambda>(f, c', h). c' = c) rows)))"
    by (elim exE) (rule that)
  note r = fr [THEN conjunct1]
  note len = fr [THEN conjunct2, THEN conjunct1]
  note rep = fr [THEN conjunct2, THEN conjunct2, THEN conjunct1]
  note empty = fr [THEN conjunct2, THEN conjunct2, THEN conjunct2, THEN conjunct1]
  note vals = fr [THEN conjunct2, THEN conjunct2, THEN conjunct2, THEN conjunct2, THEN conjunct1]
  note norep = fr [THEN conjunct2, THEN conjunct2, THEN conjunct2, THEN conjunct2, THEN conjunct2]
  define missing where
    "missing = map str_nat (filter (\<lambda>k. k \<notin> (\<lambda>(f, c, h). c) ` set rows) [0..<m + 1])"
  define mm where "mm \<longleftrightarrow> (\<exists>buffer \<in> set cbb. \<exists>x \<in> snd ` set buffer. \<exists>y \<in> snd ` set buffer.
                   (ht x = Some ''charge'') \<noteq> (ht y = Some ''charge''))"
  have tb: "table_body rows = (m, rows)"
    using table_body_distinct [OF d] m by simp
  have "filter (\<lambda>k. cbb ! k = []) [0..<length cbb]
      = filter (\<lambda>k. k \<notin> (\<lambda>(f, c, h). c) ` set rows) [0..<m + 1]"
    unfolding len by (rule filter_cong [OF refl]) (use empty in \<open>simp del: upt_Suc\<close>)
  then have mi: "missing_indices cbb = missing"
    by (simp only: missing_indices_eq missing_def)
  have "\<forall>buffer \<in> set cbb. snd ` set buffer \<subseteq> dom ht" using vals t by blast
  from type_mismatch_typed [OF this] have tm: "type_mismatch ht cbb = Inr mm"
    by (simp only: mm_def)
  have ne: "missing \<noteq> [] \<longleftrightarrow> filter (\<lambda>k. k \<notin> (\<lambda>(f, c, h). c) ` set rows) [0..<m + 1] \<noteq> []"
    by (simp only: missing_def map_is_Nil_conv)
  have v: "validate_ordering ht rows =
       (if missing \<noteq> [] then Inr (MissingCycleIndices missing)
        else if rep then Inr SlotRepetition
        else if mm then Inr HalfcycleTypeMismatch
        else (case new_ordering cbb of Inl e \<Rightarrow> Inl e | Inr groups \<Rightarrow> Inr (Accepted groups)))"
  proof -
    have r': "fill_cycle_based_buffer rows (False, replicate (Suc m) []) = Inr (rep, cbb)"
      using r by (simp only: Suc_eq_plus1)
    show ?thesis
      by (simp add: validate_ordering_def tb r' mi tm Let_def del: replicate_Suc upt_Suc)
  qed
  have v': "validate_ordering ht rows =
       (if filter (\<lambda>k. k \<notin> (\<lambda>(f, c, h). c) ` set rows) [0..<m + 1] \<noteq> []
        then Inr (MissingCycleIndices
               (map str_nat (filter (\<lambda>k. k \<notin> (\<lambda>(f, c, h). c) ` set rows) [0..<m + 1])))
        else if \<not> distinct (map snd rows) then Inr SlotRepetition
        else if (\<exists>buffer \<in> set cbb. \<exists>x \<in> snd ` set buffer. \<exists>y \<in> snd ` set buffer.
                   (ht x = Some ''charge'') \<noteq> (ht y = Some ''charge''))
        then Inr HalfcycleTypeMismatch
        else (case new_ordering cbb of Inl e \<Rightarrow> Inl e | Inr groups \<Rightarrow> Inr (Accepted groups)))"
    apply (subst v)
    apply (simp only: ne rep mm_def)
    apply (simp only: missing_def)
    done
  have nr: "distinct (map snd rows) \<longrightarrow>
        (\<forall>c \<le> m. cbb ! c = map (\<lambda>(f, c, h). (h, f)) (filter (\<lambda>(f, c', h). c' = c) rows))"
    using norep rep by blast
  show ?thesis
    apply (rule exI [of _ cbb])
    using len nr v' by (intro conjI) assumption+
qed

lemma cycles_bounded:
  fixes rows :: "row list"
  shows "(\<lambda>(f, c, h). c) ` set rows \<subseteq> {0..Max (insert 0 ((\<lambda>(f, c, h). c) ` set rows))}"
proof
  fix c assume "c \<in> (\<lambda>(f, c, h). c) ` set rows"
  then have "c \<in> insert 0 ((\<lambda>(f, c, h). c) ` set rows)" by simp
  then have "c \<le> Max (insert 0 ((\<lambda>(f, c, h). c) ` set rows))" by (intro Max_ge) auto
  then show "c \<in> {0..Max (insert 0 ((\<lambda>(f, c, h). c) ` set rows))}" by simp
qed

lemma missing_filter_nonempty:
  fixes C :: "nat set"
  shows "filter (\<lambda>k. k \<notin> C) [0..<m + 1] \<noteq> [] \<longleftrightarrow> \<not> {0..m} \<subseteq> C"
  by (auto simp: filter_empty_conv subset_iff less_Suc_eq_le simp del: upt_Suc)

lemma validate_missing:
  assumes d: "distinct (map fst rows)" and t: "fst ` set rows \<subseteq> dom ht"
    and ne: "(\<lambda>(f, c, h). c) ` set rows \<noteq> {0..Max (insert 0 ((\<lambda>(f, c, h). c) ` set rows))}"
  shows "validate_ordering ht rows =
     Inr (MissingCycleIndices (map str_nat
       (filter (\<lambda>k. k \<notin> (\<lambda>(f, c, h). c) ` set rows)
          [0..<Max (insert 0 ((\<lambda>(f, c, h). c) ` set rows)) + 1])))"
    and "filter (\<lambda>k. k \<notin> (\<lambda>(f, c, h). c) ` set rows)
          [0..<Max (insert 0 ((\<lambda>(f, c, h). c) ` set rows)) + 1] \<noteq> []"
proof -
  define m where "m = Max (insert 0 ((\<lambda>(f, c, h). c) ` set rows))"
  have "\<not> {0..m} \<subseteq> (\<lambda>(f, c, h). c) ` set rows"
    using ne cycles_bounded [of rows] unfolding m_def by blast
  then have f: "filter (\<lambda>k. k \<notin> (\<lambda>(f, c, h). c) ` set rows) [0..<m + 1] \<noteq> []"
    using missing_filter_nonempty [of "(\<lambda>(f, c, h). c) ` set rows" m] by blast
  from validate_chain [OF d t m_def] obtain cbb where
    "validate_ordering ht rows =
       (if filter (\<lambda>k. k \<notin> (\<lambda>(f, c, h). c) ` set rows) [0..<m + 1] \<noteq> []
        then Inr (MissingCycleIndices
               (map str_nat (filter (\<lambda>k. k \<notin> (\<lambda>(f, c, h). c) ` set rows) [0..<m + 1])))
        else if \<not> distinct (map snd rows) then Inr SlotRepetition
        else if (\<exists>buffer \<in> set cbb. \<exists>x \<in> snd ` set buffer. \<exists>y \<in> snd ` set buffer.
                   (ht x = Some ''charge'') \<noteq> (ht y = Some ''charge''))
        then Inr HalfcycleTypeMismatch
        else (case new_ordering cbb of Inl e \<Rightarrow> Inl e | Inr groups \<Rightarrow> Inr (Accepted groups)))"
    by (elim exE conjE) (rule that)
  with f have "validate_ordering ht rows =
     Inr (MissingCycleIndices (map str_nat
       (filter (\<lambda>k. k \<notin> (\<lambda>(f, c, h). c) ` set rows) [0..<m + 1])))"
    by (simp only: if_True not_False_eq_True)
  then show "validate_ordering ht rows =
     Inr (MissingCycleIndices (map str_nat
       (filter (\<lambda>k. k \<notin> (\<lambda>(f, c, h). c) ` set rows)
          [0..<Max (insert 0 ((\<lambda>(f, c, h). c) ` set rows)) + 1])))"
    unfolding m_def .
  from f show "filter (\<lambda>k. k \<notin> (\<lambda>(f, c, h). c) ` set rows)
          [0..<Max (insert 0 ((\<lambda>(f, c, h). c) ` set rows)) + 1] \<noteq> []"
    unfolding m_def .
qed

text \<open>
  C4. For every ordering table (distinct file names, each with a parsed half-cycle) whose
  set of Halfcycle IDs is not exactly \<open>{0..max}\<close>, where \<open>max\<close> is the largest ID selected
  (0 for an empty table), the editor ends with the warning on missing IDs, and the list it
  reports is not empty and holds (as a decimal string) exactly the IDs up to \<open>max\<close> that
  no row has: every such absent \<open>k\<close> is in the payload.
\<close>

theorem missing_cycle_indices_reported:
  assumes "distinct (map fst rows)" and "fst ` set rows \<subseteq> dom ht"
    and "(\<lambda>(f, c, h). c) ` set rows \<noteq> {0..Max (insert 0 ((\<lambda>(f, c, h). c) ` set rows))}"
  shows "\<exists>missing. validate_ordering ht rows = Inr (MissingCycleIndices missing) \<and>
           missing \<noteq> [] \<and>
           set missing = str_nat ` {k. k \<le> Max (insert 0 ((\<lambda>(f, c, h). c) ` set rows)) \<and>
                                     k \<notin> (\<lambda>(f, c, h). c) ` set rows} \<and>
           (\<forall>k \<le> Max (insert 0 ((\<lambda>(f, c, h). c) ` set rows)).
              k \<notin> (\<lambda>(f, c, h). c) ` set rows \<longrightarrow> str_nat k \<in> set missing)"
proof -
  let ?m = "Max (insert 0 ((\<lambda>(f, c, h). c) ` set rows))"
  let ?ks = "filter (\<lambda>k. k \<notin> (\<lambda>(f, c, h). c) ` set rows) [0..<?m + 1]"
  have v: "validate_ordering ht rows = Inr (MissingCycleIndices (map str_nat ?ks))"
    and ne: "?ks \<noteq> []"
    using validate_missing [OF assms] by blast+
  have s: "set ?ks = {k. k \<le> ?m \<and> k \<notin> (\<lambda>(f, c, h). c) ` set rows}"
    by (auto simp del: upt_Suc)
  have 1: "map str_nat ?ks \<noteq> []" using ne by (simp only: map_is_Nil_conv not_False_eq_True)
  have 2: "set (map str_nat ?ks) = str_nat ` {k. k \<le> ?m \<and> k \<notin> (\<lambda>(f, c, h). c) ` set rows}"
    by (simp only: set_map s)
  have 3: "\<forall>k \<le> ?m. k \<notin> (\<lambda>(f, c, h). c) ` set rows \<longrightarrow> str_nat k \<in> set (map str_nat ?ks)"
    unfolding 2 by blast
  show ?thesis
    apply (rule exI [of _ "map str_nat ?ks"])
    using v 1 2 3 by (intro conjI) assumption+
qed

lemma group_values:
  fixes rows :: "row list"
  assumes nr: "\<forall>c \<le> m. cbb ! c = map (\<lambda>(f, c, h). (h, f)) (filter (\<lambda>(f, c', h). c' = c) rows)"
    and len: "length cbb = m + 1"
  shows "(\<exists>buffer \<in> set cbb. \<exists>x \<in> snd ` set buffer. \<exists>y \<in> snd ` set buffer. P x y) \<longleftrightarrow>
         (\<exists>c \<le> m. \<exists>x y. (\<exists>h. (x, c, h) \<in> set rows) \<and> (\<exists>h. (y, c, h) \<in> set rows) \<and> P x y)"
proof -
  have vals: "snd ` set (cbb ! c) = {f. \<exists>h. (f, c, h) \<in> set rows}" if "c \<le> m" for c
  proof -
    have "snd ` set (map (\<lambda>(f, c, h). (h, f)) (filter (\<lambda>(f, c', h). c' = c) rows))
        = {f. \<exists>h. (f, c, h) \<in> set rows}"
      by force
    with nr that show ?thesis by simp
  qed
  have bufs: "buffer \<in> set cbb \<longleftrightarrow> (\<exists>c \<le> m. buffer = cbb ! c)" for buffer
    using len by (auto simp: in_set_conv_nth less_Suc_eq_le)
  show ?thesis
  proof
    assume "\<exists>buffer \<in> set cbb. \<exists>x \<in> snd ` set buffer. \<exists>y \<in> snd ` set buffer. P x y"
    then obtain buffer x y where b: "buffer \<in> set cbb" and x: "x \<in> snd ` set buffer"
      and y: "y \<in> snd ` set buffer" and p: "P x y" by blast
    from b bufs obtain c where c: "c \<le> m" "buffer = cbb ! c" by blast
    from x y c vals [OF c(1)] have "\<exists>h. (x, c, h) \<in> set rows" "\<exists>h. (y, c, h) \<in> set rows"
      by auto
    with c(1) p show "\<exists>c \<le> m. \<exists>x y. (\<exists>h. (x, c, h) \<in> set rows) \<and> (\<exists>h. (y, c, h) \<in> set rows) \<and> P x y"
      by blast
  next
    assume "\<exists>c \<le> m. \<exists>x y. (\<exists>h. (x, c, h) \<in> set rows) \<and> (\<exists>h. (y, c, h) \<in> set rows) \<and> P x y"
    then obtain c x y where c: "c \<le> m" and x: "\<exists>h. (x, c, h) \<in> set rows"
      and y: "\<exists>h. (y, c, h) \<in> set rows" and p: "P x y" by blast
    from x y vals [OF c] have "x \<in> snd ` set (cbb ! c)" "y \<in> snd ` set (cbb ! c)" by auto
    moreover have "cbb ! c \<in> set cbb" using bufs c by blast
    ultimately show "\<exists>buffer \<in> set cbb. \<exists>x \<in> snd ` set buffer. \<exists>y \<in> snd ` set buffer. P x y"
      using p by blast
  qed
qed

lemma validate_no_missing:
  assumes d: "distinct (map fst rows)" and t: "fst ` set rows \<subseteq> dom ht"
    and m: "m = Max (insert 0 ((\<lambda>(f, c, h). c) ` set rows))"
    and full: "(\<lambda>(f, c, h). c) ` set rows = {0..m}"
  shows "\<exists>cbb. length cbb = m + 1 \<and>
     (distinct (map snd rows) \<longrightarrow>
        (\<forall>c \<le> m. cbb ! c = map (\<lambda>(f, c, h). (h, f)) (filter (\<lambda>(f, c', h). c' = c) rows))) \<and>
     validate_ordering ht rows =
       (if \<not> distinct (map snd rows) then Inr SlotRepetition
        else if (\<exists>buffer \<in> set cbb. \<exists>x \<in> snd ` set buffer. \<exists>y \<in> snd ` set buffer.
                   (ht x = Some ''charge'') \<noteq> (ht y = Some ''charge''))
        then Inr HalfcycleTypeMismatch
        else (case new_ordering cbb of Inl e \<Rightarrow> Inl e | Inr groups \<Rightarrow> Inr (Accepted groups)))"
proof -
  have "{0..m} \<subseteq> (\<lambda>(f, c, h). c) ` set rows" using full by simp
  then have f: "filter (\<lambda>k. k \<notin> (\<lambda>(f, c, h). c) ` set rows) [0..<m + 1] = []"
    using missing_filter_nonempty [of "(\<lambda>(f, c, h). c) ` set rows" m] by blast
  from validate_chain [OF d t m] obtain cbb where
    c: "length cbb = m + 1 \<and>
     (distinct (map snd rows) \<longrightarrow>
        (\<forall>c \<le> m. cbb ! c = map (\<lambda>(f, c, h). (h, f)) (filter (\<lambda>(f, c', h). c' = c) rows))) \<and>
     validate_ordering ht rows =
       (if filter (\<lambda>k. k \<notin> (\<lambda>(f, c, h). c) ` set rows) [0..<m + 1] \<noteq> []
        then Inr (MissingCycleIndices
               (map str_nat (filter (\<lambda>k. k \<notin> (\<lambda>(f, c, h). c) ` set rows) [0..<m + 1])))
        else if \<not> distinct (map snd rows) then Inr SlotRepetition
        else if (\<exists>buffer \<in> set cbb. \<exists>x \<in> snd ` set buffer. \<exists>y \<in> snd ` set buffer.
                   (ht x = Some ''charge'') \<noteq> (ht y = Some ''charge''))
        then Inr HalfcycleTypeMismatch
        else (case new_ordering cbb of Inl e \<Rightarrow> Inl e | Inr groups \<Rightarrow> Inr (Accepted groups)))"
    by (elim exE) (rule that)
  have "([] :: nat list) \<noteq> [] \<longleftrightarrow> False" by simp
  then have v: "validate_ordering ht rows =
       (if \<not> distinct (map snd rows) then Inr SlotRepetition
        else if (\<exists>buffer \<in> set cbb. \<exists>x \<in> snd ` set buffer. \<exists>y \<in> snd ` set buffer.
                   (ht x = Some ''charge'') \<noteq> (ht y = Some ''charge''))
        then Inr HalfcycleTypeMismatch
        else (case new_ordering cbb of Inl e \<Rightarrow> Inl e | Inr groups \<Rightarrow> Inr (Accepted groups)))"
    using c [THEN conjunct2, THEN conjunct2] unfolding f by (simp only: if_False)
  show ?thesis
    apply (rule exI [of _ cbb])
    using c [THEN conjunct1] c [THEN conjunct2, THEN conjunct1] v by (intro conjI) assumption+
qed

theorem missing_cycle_indices_reported_witness:
  "distinct (map fst [(''a'', 0, 0), (''b'', 0, 1), (''c'', 2 :: nat, 0 :: nat)]) \<and>
   fst ` set [(''a'', 0, 0), (''b'', 0, 1), (''c'', 2 :: nat, 0 :: nat)]
     \<subseteq> dom [''a'' \<mapsto> ''charge'', ''b'' \<mapsto> ''charge'', ''c'' \<mapsto> ''discharge''] \<and>
   (\<lambda>(f, c, h). c) ` set [(''a'', 0, 0), (''b'', 0, 1), (''c'', 2 :: nat, 0 :: nat)]
     \<noteq> {0..Max (insert 0 ((\<lambda>(f, c, h). c) ` set [(''a'', 0, 0), (''b'', 0, 1), (''c'', 2 :: nat, 0 :: nat)]))} \<and>
   (\<exists>missing.
      validate_ordering [''a'' \<mapsto> ''charge'', ''b'' \<mapsto> ''charge'', ''c'' \<mapsto> ''discharge'']
        [(''a'', 0, 0), (''b'', 0, 1), (''c'', 2, 0)] = Inr (MissingCycleIndices missing) \<and>
      str_nat 1 \<in> set missing)"
proof -
  let ?rows = "[(''a'', 0, 0), (''b'', 0, 1), (''c'', 2 :: nat, 0 :: nat)]"
  let ?ht = "[''a'' \<mapsto> ''charge'', ''b'' \<mapsto> ''charge'', ''c'' \<mapsto> ''discharge'']"
  have mx: "Max (insert 0 ((\<lambda>(f, c, h). c) ` set ?rows)) = 2" by simp
  have a: "distinct (map fst ?rows)" by simp
  have b: "fst ` set ?rows \<subseteq> dom ?ht" by simp
  have "1 \<in> {0..2::nat}" by simp
  moreover have "(1::nat) \<notin> (\<lambda>(f, c, h). c) ` set ?rows" by simp
  ultimately have "(\<lambda>(f, c, h). c) ` set ?rows \<noteq> {0..2}" by metis
  then have c: "(\<lambda>(f, c, h). c) ` set ?rows \<noteq> {0..Max (insert 0 ((\<lambda>(f, c, h). c) ` set ?rows))}"
    by (simp only: mx not_False_eq_True)
  from missing_cycle_indices_reported [OF a b c] obtain missing where
    v: "validate_ordering ?ht ?rows = Inr (MissingCycleIndices missing)"
    and k: "\<forall>k \<le> Max (insert 0 ((\<lambda>(f, c, h). c) ` set ?rows)).
              k \<notin> (\<lambda>(f, c, h). c) ` set ?rows \<longrightarrow> str_nat k \<in> set missing"
    by blast
  have "str_nat 1 \<in> set missing"
    using k [unfolded mx, rule_format, of 1] by simp
  with v have "\<exists>missing. validate_ordering ?ht ?rows = Inr (MissingCycleIndices missing) \<and>
      str_nat 1 \<in> set missing" by blast
  with a b c show ?thesis by (intro conjI) assumption+
qed

text \<open>
  A table with a repetition (files \<open>a\<close> and \<open>b\<close> both at order 0 of group 0) and a
  missing ID (1) is not reported as a repetition: the warning is the one on missing IDs.
\<close>

theorem repetition_first_counterexample:
  "\<not> distinct (map snd [(''a'', 0 :: nat, 0 :: nat), (''b'', 0, 0), (''c'', 2, 0)]) \<and>
   (1 :: nat) \<notin> set (map (fst \<circ> snd) [(''a'', 0 :: nat, 0 :: nat), (''b'', 0, 0), (''c'', 2, 0)]) \<and>
   validate_ordering [''a'' \<mapsto> ''charge'', ''b'' \<mapsto> ''charge'', ''c'' \<mapsto> ''discharge'']
     [(''a'', 0, 0), (''b'', 0, 0), (''c'', 2, 0)] = Inr (MissingCycleIndices [''1'']) \<and>
   validate_ordering [''a'' \<mapsto> ''charge'', ''b'' \<mapsto> ''charge'', ''c'' \<mapsto> ''discharge'']
     [(''a'', 0, 0), (''b'', 0, 0), (''c'', 2, 0)] \<noteq> Inr SlotRepetition"
proof -
  have v: "validate_ordering [''a'' \<mapsto> ''charge'', ''b'' \<mapsto> ''charge'', ''c'' \<mapsto> ''discharge'']
     [(''a'', 0, 0), (''b'', 0, 0), (''c'', 2, 0)] = Inr (MissingCycleIndices [''1''])"
    by code_simp
  have "\<not> distinct (map snd [(''a'', 0 :: nat, 0 :: nat), (''b'', 0, 0), (''c'', 2, 0)])" by simp
  moreover have "(1 :: nat) \<notin> set (map (fst \<circ> snd) [(''a'', 0 :: nat, 0 :: nat), (''b'', 0, 0), (''c'', 2, 0)])"
    by simp
  ultimately show ?thesis using v by simp
qed

text \<open>
  C1 (as the code has it). The checks are reported in the order missing IDs, repetition,
  type mismatch. For every ordering table (distinct file names, each with a parsed
  half-cycle): when the set of Halfcycle IDs is not \<open>{0..max}\<close> the missing IDs are
  reported, also when the table contains a slot repetition; when no ID is missing and two
  files claim the same order in one group, the repetition is reported, also when types
  are mixed; when no ID is missing, there is no repetition and some group mixes a charge
  file with a file that is not a charge file, the type mismatch is reported.
\<close>

theorem validation_order:
  assumes "distinct (map fst rows)" and "fst ` set rows \<subseteq> dom ht"
  shows "((\<lambda>(f, c, h). c) ` set rows \<noteq> {0..Max (insert 0 ((\<lambda>(f, c, h). c) ` set rows))} \<longrightarrow>
            (\<exists>missing. missing \<noteq> [] \<and> validate_ordering ht rows = Inr (MissingCycleIndices missing))) \<and>
         ((\<lambda>(f, c, h). c) ` set rows = {0..Max (insert 0 ((\<lambda>(f, c, h). c) ` set rows))} \<and>
            \<not> distinct (map snd rows) \<longrightarrow>
            validate_ordering ht rows = Inr SlotRepetition) \<and>
         ((\<lambda>(f, c, h). c) ` set rows = {0..Max (insert 0 ((\<lambda>(f, c, h). c) ` set rows))} \<and>
            distinct (map snd rows) \<and>
            (\<exists>c x y. (\<exists>h. (x, c, h) \<in> set rows) \<and> (\<exists>h. (y, c, h) \<in> set rows) \<and>
               (ht x = Some ''charge'') \<noteq> (ht y = Some ''charge'')) \<longrightarrow>
            validate_ordering ht rows = Inr HalfcycleTypeMismatch)"
proof (intro conjI impI)
  assume "(\<lambda>(f, c, h). c) ` set rows \<noteq> {0..Max (insert 0 ((\<lambda>(f, c, h). c) ` set rows))}"
  from validate_missing [OF assms this]
  have "validate_ordering ht rows =
     Inr (MissingCycleIndices (map str_nat
       (filter (\<lambda>k. k \<notin> (\<lambda>(f, c, h). c) ` set rows)
          [0..<Max (insert 0 ((\<lambda>(f, c, h). c) ` set rows)) + 1])))"
    and "map str_nat (filter (\<lambda>k. k \<notin> (\<lambda>(f, c, h). c) ` set rows)
          [0..<Max (insert 0 ((\<lambda>(f, c, h). c) ` set rows)) + 1]) \<noteq> []"
    by (simp_all only: map_is_Nil_conv not_False_eq_True)
  then show "\<exists>missing. missing \<noteq> [] \<and> validate_ordering ht rows = Inr (MissingCycleIndices missing)"
    by blast
next
  define m where "m = Max (insert 0 ((\<lambda>(f, c, h). c) ` set rows))"
  assume "(\<lambda>(f, c, h). c) ` set rows = {0..Max (insert 0 ((\<lambda>(f, c, h). c) ` set rows))} \<and>
            \<not> distinct (map snd rows)"
  then have full: "(\<lambda>(f, c, h). c) ` set rows = {0..m}" and nd: "\<not> distinct (map snd rows)"
    unfolding m_def by blast+
  from validate_no_missing [OF assms m_def full] nd
  show "validate_ordering ht rows = Inr SlotRepetition"
    by (elim exE conjE) (simp only: if_True not_False_eq_True)
next
  define m where "m = Max (insert 0 ((\<lambda>(f, c, h). c) ` set rows))"
  assume a: "(\<lambda>(f, c, h). c) ` set rows = {0..Max (insert 0 ((\<lambda>(f, c, h). c) ` set rows))} \<and>
            distinct (map snd rows) \<and>
            (\<exists>c x y. (\<exists>h. (x, c, h) \<in> set rows) \<and> (\<exists>h. (y, c, h) \<in> set rows) \<and>
               (ht x = Some ''charge'') \<noteq> (ht y = Some ''charge''))"
  then have full: "(\<lambda>(f, c, h). c) ` set rows = {0..m}" and ds: "distinct (map snd rows)"
    unfolding m_def by blast+
  from a obtain c x y where x: "\<exists>h. (x, c, h) \<in> set rows" and y: "\<exists>h. (y, c, h) \<in> set rows"
    and p: "(ht x = Some ''charge'') \<noteq> (ht y = Some ''charge'')" by blast
  from x have "c \<in> (\<lambda>(f, c, h). c) ` set rows" by force
  then have c: "c \<le> m" unfolding full by simp
  from validate_no_missing [OF assms m_def full] obtain cbb where
    len: "length cbb = m + 1"
    and nr: "distinct (map snd rows) \<longrightarrow>
        (\<forall>c \<le> m. cbb ! c = map (\<lambda>(f, c, h). (h, f)) (filter (\<lambda>(f, c', h). c' = c) rows))"
    and v: "validate_ordering ht rows =
       (if \<not> distinct (map snd rows) then Inr SlotRepetition
        else if (\<exists>buffer \<in> set cbb. \<exists>x \<in> snd ` set buffer. \<exists>y \<in> snd ` set buffer.
                   (ht x = Some ''charge'') \<noteq> (ht y = Some ''charge''))
        then Inr HalfcycleTypeMismatch
        else (case new_ordering cbb of Inl e \<Rightarrow> Inl e | Inr groups \<Rightarrow> Inr (Accepted groups)))"
    by (elim exE conjE) (rule that)
  from nr ds have nr': "\<forall>c \<le> m. cbb ! c = map (\<lambda>(f, c, h). (h, f)) (filter (\<lambda>(f, c', h). c' = c) rows)"
    by blast
  have "\<exists>c \<le> m. \<exists>x y. (\<exists>h. (x, c, h) \<in> set rows) \<and> (\<exists>h. (y, c, h) \<in> set rows) \<and>
      (ht x = Some ''charge'') \<noteq> (ht y = Some ''charge'')"
    using c x y p by blast
  then have mm: "\<exists>buffer \<in> set cbb. \<exists>x \<in> snd ` set buffer. \<exists>y \<in> snd ` set buffer.
                   (ht x = Some ''charge'') \<noteq> (ht y = Some ''charge'')"
    by (simp only: group_values [OF nr' len, of "\<lambda>x y. (ht x = Some ''charge'') \<noteq> (ht y = Some ''charge'')"])
  from v ds mm show "validate_ordering ht rows = Inr HalfcycleTypeMismatch"
    by (simp only: if_True if_False not_True_eq_False)
qed

lemma slots_distinct:
  fixes rows :: "row list"
  assumes "distinct (map snd rows)"
  shows "distinct (map (\<lambda>(f, c, h). h) (filter (\<lambda>(f, c', h). c' = c) rows))"
proof -
  have "distinct (map snd (filter (\<lambda>(f, c', h). c' = c) rows))"
    using assms by (rule distinct_map_filter)
  moreover have "map snd (filter (\<lambda>(f, c', h). c' = c) rows)
      = map (\<lambda>h. (c, h)) (map (\<lambda>(f, c, h). h) (filter (\<lambda>(f, c', h). c' = c) rows))"
    by (induction rows) auto
  ultimately have "distinct (map (\<lambda>h. (c, h)) (map (\<lambda>(f, c, h). h) (filter (\<lambda>(f, c', h). c' = c) rows)))"
    by simp
  then show ?thesis by (auto simp: distinct_map inj_on_def)
qed

lemma group_of_rows:
  fixes rows :: "row list"
  assumes d: "distinct (map fst rows)" and ds: "distinct (map snd rows)"
    and b: "b = map (\<lambda>(f, c, h). (h, f)) (filter (\<lambda>(f, c', h). c' = c) rows)"
    and ne: "b \<noteq> []" and go: "group_ordering b = Inr files"
  shows "set files = {f. \<exists>h. (f, c, h) \<in> set rows}"
    and "sorted_wrt (<) (map (\<lambda>f. snd (the (map_of rows f))) files)"
proof -
  have "map fst b = map (\<lambda>(f, c, h). h) (filter (\<lambda>(f, c', h). c' = c) rows)"
    unfolding b by (induction rows) auto
  then have db: "distinct (map fst b)" using slots_distinct [OF ds, of c] by simp
  from group_ordering_sorted [OF ne db] go obtain hs where
    files: "files = map (\<lambda>h. the (map_of b h)) hs" and s: "sorted_wrt (<) hs"
    and hs: "set hs = fst ` set b" by auto
  have inb: "(h, f) \<in> set b \<longleftrightarrow> (f, c, h) \<in> set rows" for h f
    unfolding b by force
  have look: "the (map_of b h) = f" if "(h, f) \<in> set b" for h f
    using that db by simp
  have "set files = snd ` set b"
  proof (intro set_eqI iffI)
    fix f assume "f \<in> set files"
    then obtain h where h: "h \<in> set hs" and f: "f = the (map_of b h)" unfolding files by auto
    from h hs obtain f' where "(h, f') \<in> set b" by auto
    with look [OF this] f show "f \<in> snd ` set b" by force
  next
    fix f assume "f \<in> snd ` set b"
    then obtain h where hf: "(h, f) \<in> set b" by auto
    then have "h \<in> set hs" unfolding hs by force
    with look [OF hf] show "f \<in> set files" unfolding files by force
  qed
  also have "\<dots> = {f. \<exists>h. (f, c, h) \<in> set rows}"
    using inb by force
  finally show "set files = {f. \<exists>h. (f, c, h) \<in> set rows}" .
  have "map (\<lambda>f. snd (the (map_of rows f))) files = hs"
    unfolding files map_map
  proof (rule map_idI)
    fix h assume "h \<in> set hs"
    with hs obtain f where hf: "(h, f) \<in> set b" by auto
    then have "(f, c, h) \<in> set rows" using inb by simp
    with d have "map_of rows f = Some (c, h)" by simp
    with look [OF hf] show "((\<lambda>f. snd (the (map_of rows f))) \<circ> (\<lambda>h. the (map_of b h))) h = h"
      by simp
  qed
  with s show "sorted_wrt (<) (map (\<lambda>f. snd (the (map_of rows f))) files)" by simp
qed

theorem validation_order_witness:
  "distinct (map fst [(''a'', 0 :: nat, 0 :: nat), (''b'', 0, 0), (''c'', 2, 0)]) \<and>
   fst ` set [(''a'', 0 :: nat, 0 :: nat), (''b'', 0, 0), (''c'', 2, 0)]
     \<subseteq> dom [''a'' \<mapsto> ''charge'', ''b'' \<mapsto> ''charge'', ''c'' \<mapsto> ''discharge''] \<and>
   \<not> distinct (map snd [(''a'', 0 :: nat, 0 :: nat), (''b'', 0, 0), (''c'', 2, 0)]) \<and>
   (\<lambda>(f, c, h). c) ` set [(''a'', 0 :: nat, 0 :: nat), (''b'', 0, 0), (''c'', 2, 0)]
     \<noteq> {0..Max (insert 0 ((\<lambda>(f, c, h). c) ` set [(''a'', 0 :: nat, 0 :: nat), (''b'', 0, 0), (''c'', 2, 0)]))} \<and>
   (\<exists>missing. missing \<noteq> [] \<and>
      validate_ordering [''a'' \<mapsto> ''charge'', ''b'' \<mapsto> ''charge'', ''c'' \<mapsto> ''discharge'']
        [(''a'', 0, 0), (''b'', 0, 0), (''c'', 2, 0)] = Inr (MissingCycleIndices missing)) \<and>
   (\<lambda>(f, c, h). c) ` set [(''a'', 0 :: nat, 0 :: nat), (''b'', 0, 0)]
     = {0..Max (insert 0 ((\<lambda>(f, c, h). c) ` set [(''a'', 0 :: nat, 0 :: nat), (''b'', 0, 0)]))} \<and>
   validate_ordering [''a'' \<mapsto> ''charge'', ''b'' \<mapsto> ''charge'', ''c'' \<mapsto> ''discharge'']
        [(''a'', 0, 0), (''b'', 0, 0)] = Inr SlotRepetition \<and>
   validate_ordering [''a'' \<mapsto> ''charge'', ''b'' \<mapsto> ''charge'', ''c'' \<mapsto> ''discharge'']
        [(''a'', 0, 0), (''c'', 0, 1)] = Inr HalfcycleTypeMismatch"
proof -
  let ?ht = "[''a'' \<mapsto> ''charge'', ''b'' \<mapsto> ''charge'', ''c'' \<mapsto> ''discharge'']"
  let ?r1 = "[(''a'', 0 :: nat, 0 :: nat), (''b'', 0, 0), (''c'', 2, 0)]"
  let ?r2 = "[(''a'', 0 :: nat, 0 :: nat), (''b'', 0, 0)]"
  let ?r3 = "[(''a'', 0 :: nat, 0 :: nat), (''c'', 0, 1)]"
  have a1: "distinct (map fst ?r1)" and b1: "fst ` set ?r1 \<subseteq> dom ?ht" by simp_all
  have a2: "distinct (map fst ?r2)" and b2: "fst ` set ?r2 \<subseteq> dom ?ht" by simp_all
  have a3: "distinct (map fst ?r3)" and b3: "fst ` set ?r3 \<subseteq> dom ?ht" by simp_all
  have n1: "\<not> distinct (map snd ?r1)" and n2: "\<not> distinct (map snd ?r2)" by simp_all
  have mx1: "Max (insert 0 ((\<lambda>(f, c, h). c) ` set ?r1)) = 2" by simp
  have "(1::nat) \<in> {0..2}" "(1::nat) \<notin> (\<lambda>(f, c, h). c) ` set ?r1" by simp_all
  then have "(\<lambda>(f, c, h). c) ` set ?r1 \<noteq> {0..2}" by metis
  then have c1: "(\<lambda>(f, c, h). c) ` set ?r1 \<noteq> {0..Max (insert 0 ((\<lambda>(f, c, h). c) ` set ?r1))}"
    by (simp only: mx1 not_False_eq_True)
  have c2: "(\<lambda>(f, c, h). c) ` set ?r2 = {0..Max (insert 0 ((\<lambda>(f, c, h). c) ` set ?r2))}"
    by simp
  have c3: "(\<lambda>(f, c, h). c) ` set ?r3 = {0..Max (insert 0 ((\<lambda>(f, c, h). c) ` set ?r3))}"
    by simp
  have d3: "distinct (map snd ?r3)" by simp
  have e3: "\<exists>c x y. (\<exists>h. (x, c, h) \<in> set ?r3) \<and> (\<exists>h. (y, c, h) \<in> set ?r3) \<and>
               (?ht x = Some ''charge'') \<noteq> (?ht y = Some ''charge'')"
    by (rule exI [of _ 0], rule exI [of _ "''a''"], rule exI [of _ "''c''"]) simp
  have w1: "\<exists>missing. missing \<noteq> [] \<and> validate_ordering ?ht ?r1 = Inr (MissingCycleIndices missing)"
    using validation_order [OF a1 b1] c1 by blast
  have w2: "validate_ordering ?ht ?r2 = Inr SlotRepetition"
    using validation_order [OF a2 b2] c2 n2 by blast
  have w3: "validate_ordering ?ht ?r3 = Inr HalfcycleTypeMismatch"
    using validation_order [OF a3 b3] c3 d3 e3 by blast
  from a1 b1 n1 c1 w1 c2 w2 w3 show ?thesis by (intro conjI) assumption+
qed

lemma edit_ordering_accepted:
  "validate_ordering ht rows = Inr (Accepted groups) \<Longrightarrow>
   edit_ordering ht rows previous = Inr groups"
  by (simp add: edit_ordering_def)

lemma cycle_assembler_length:
  "length (cycle_assembler ht merge hidden_of groups) = length groups"
  by (simp add: cycle_assembler_def)

text \<open>
  C2. For every ordering table (distinct file names, each with a parsed half-cycle) whose
  Halfcycle IDs are exactly \<open>0..N\<close>, in which no two files of a group claim the same order
  and all files of a group have the same type, the editor accepts the table: the new
  ordering has exactly \<open>N + 1\<close> groups, group \<open>c\<close> holds exactly the files placed in
  group \<open>c\<close>, listed by strictly ascending order index, and it becomes the ordering of the
  experiment. The cycle sequence assembled from it has exactly \<open>N + 1\<close> cycles.
\<close>

theorem contiguous_ordering_accepted:
  assumes d: "distinct (map fst rows)" and t: "fst ` set rows \<subseteq> dom ht"
    and full: "(\<lambda>(f, c, h). c) ` set rows = {0..N}"
    and ds: "distinct (map snd rows)"
    and same: "\<forall>c x y. (\<exists>h. (x, c, h) \<in> set rows) \<and> (\<exists>h. (y, c, h) \<in> set rows) \<longrightarrow> ht x = ht y"
  shows "\<exists>groups. validate_ordering ht rows = Inr (Accepted groups) \<and>
           length groups = N + 1 \<and>
           (\<forall>c \<le> N. set (groups ! c) = {f. \<exists>h. (f, c, h) \<in> set rows} \<and>
                     sorted_wrt (<) (map (\<lambda>f. snd (the (map_of rows f))) (groups ! c))) \<and>
           edit_ordering ht rows previous = Inr groups \<and>
           length (cycle_assembler ht merge hidden_of groups) = N + 1"
proof -
  have m: "N = Max (insert 0 ((\<lambda>(f, c, h). c) ` set rows))"
  proof -
    have "insert 0 {0..N} = {0..N}" by auto
    moreover have "Max {0..N} = N" by (rule Max_eqI) auto
    ultimately show ?thesis unfolding full by simp
  qed
  from validate_no_missing [OF d t m full] obtain cbb where
    len: "length cbb = N + 1"
    and nr: "distinct (map snd rows) \<longrightarrow>
        (\<forall>c \<le> N. cbb ! c = map (\<lambda>(f, c, h). (h, f)) (filter (\<lambda>(f, c', h). c' = c) rows))"
    and v: "validate_ordering ht rows =
       (if \<not> distinct (map snd rows) then Inr SlotRepetition
        else if (\<exists>buffer \<in> set cbb. \<exists>x \<in> snd ` set buffer. \<exists>y \<in> snd ` set buffer.
                   (ht x = Some ''charge'') \<noteq> (ht y = Some ''charge''))
        then Inr HalfcycleTypeMismatch
        else (case new_ordering cbb of Inl e \<Rightarrow> Inl e | Inr groups \<Rightarrow> Inr (Accepted groups)))"
    by (elim exE conjE) (rule that)
  from nr ds have nr': "\<forall>c \<le> N. cbb ! c = map (\<lambda>(f, c, h). (h, f)) (filter (\<lambda>(f, c', h). c' = c) rows)"
    by blast
  have "\<not> (\<exists>c \<le> N. \<exists>x y. (\<exists>h. (x, c, h) \<in> set rows) \<and> (\<exists>h. (y, c, h) \<in> set rows) \<and>
      (ht x = Some ''charge'') \<noteq> (ht y = Some ''charge''))"
    using same by metis
  then have nomm: "\<not> (\<exists>buffer \<in> set cbb. \<exists>x \<in> snd ` set buffer. \<exists>y \<in> snd ` set buffer.
                   (ht x = Some ''charge'') \<noteq> (ht y = Some ''charge''))"
    by (simp only: group_values [OF nr' len, of "\<lambda>x y. (ht x = Some ''charge'') \<noteq> (ht y = Some ''charge'')"]
        not_False_eq_True)
  have v2: "validate_ordering ht rows =
      (case new_ordering cbb of Inl e \<Rightarrow> Inl e | Inr groups \<Rightarrow> Inr (Accepted groups))"
    using v ds nomm by (simp only: if_False not_True_eq_False)
  have nonempty: "cbb ! c \<noteq> []" if "c \<le> N" for c
  proof -
    from that full have "c \<in> (\<lambda>(f, c, h). c) ` set rows" by simp
    then obtain f h where "(f, c, h) \<in> set rows" by force
    then have "(f, c, h) \<in> set (filter (\<lambda>(f, c', h). c' = c) rows)" by simp
    then have "filter (\<lambda>(f, c', h). c' = c) rows \<noteq> []" by force
    with nr' that show ?thesis by simp
  qed
  have "\<forall>b \<in> set cbb. b \<noteq> []"
  proof
    fix b assume "b \<in> set cbb"
    then obtain c where "c < length cbb" "cbb ! c = b" by (auto simp: in_set_conv_nth)
    with nonempty [of c] len show "b \<noteq> []" by simp
  qed
  from new_ordering_map [OF this] obtain groups where
    no: "new_ordering cbb = Inr groups" and lg: "length groups = length cbb"
    and go: "\<forall>c < length cbb. group_ordering (cbb ! c) = Inr (groups ! c)" by blast
  have acc: "validate_ordering ht rows = Inr (Accepted groups)"
    using v2 no by simp
  have l: "length groups = N + 1" using lg len by simp
  have per: "\<forall>c \<le> N. set (groups ! c) = {f. \<exists>h. (f, c, h) \<in> set rows} \<and>
                     sorted_wrt (<) (map (\<lambda>f. snd (the (map_of rows f))) (groups ! c))"
  proof (intro allI impI)
    fix c assume c: "c \<le> N"
    have b: "cbb ! c = map (\<lambda>(f, c, h). (h, f)) (filter (\<lambda>(f, c', h). c' = c) rows)"
      using nr' c by blast
    have g: "group_ordering (cbb ! c) = Inr (groups ! c)" using go c len by simp
    from group_of_rows [OF d ds b nonempty [OF c] g]
    show "set (groups ! c) = {f. \<exists>h. (f, c, h) \<in> set rows} \<and>
          sorted_wrt (<) (map (\<lambda>f. snd (the (map_of rows f))) (groups ! c))"
      by blast
  qed
  have e: "edit_ordering ht rows previous = Inr groups"
    using acc by (rule edit_ordering_accepted)
  have ca: "length (cycle_assembler ht merge hidden_of groups) = N + 1"
    using l by (simp only: cycle_assembler_length)
  show ?thesis
    apply (rule exI [of _ groups])
    using acc l per e ca by (intro conjI) assumption+
qed

theorem contiguous_ordering_accepted_witness:
  "distinct (map fst [(''a'', 0 :: nat, 3 :: nat), (''b'', 0, 1), (''c'', 1, 0), (''d'', 1, 5)]) \<and>
   fst ` set [(''a'', 0 :: nat, 3 :: nat), (''b'', 0, 1), (''c'', 1, 0), (''d'', 1, 5)]
     \<subseteq> dom [''a'' \<mapsto> ''charge'', ''b'' \<mapsto> ''charge'', ''c'' \<mapsto> ''discharge'', ''d'' \<mapsto> ''discharge''] \<and>
   (\<lambda>(f, c, h). c) ` set [(''a'', 0 :: nat, 3 :: nat), (''b'', 0, 1), (''c'', 1, 0), (''d'', 1, 5)] = {0..1} \<and>
   distinct (map snd [(''a'', 0 :: nat, 3 :: nat), (''b'', 0, 1), (''c'', 1, 0), (''d'', 1, 5)]) \<and>
   (\<exists>groups.
      validate_ordering
        [''a'' \<mapsto> ''charge'', ''b'' \<mapsto> ''charge'', ''c'' \<mapsto> ''discharge'', ''d'' \<mapsto> ''discharge'']
        [(''a'', 0, 3), (''b'', 0, 1), (''c'', 1, 0), (''d'', 1, 5)] = Inr (Accepted groups) \<and>
      length groups = 1 + 1 \<and>
      set (groups ! 0) = {f. \<exists>h. (f, 0, h) \<in> set [(''a'', 0 :: nat, 3 :: nat), (''b'', 0, 1), (''c'', 1, 0), (''d'', 1, 5)]} \<and>
      edit_ordering
        [''a'' \<mapsto> ''charge'', ''b'' \<mapsto> ''charge'', ''c'' \<mapsto> ''discharge'', ''d'' \<mapsto> ''discharge'']
        [(''a'', 0, 3), (''b'', 0, 1), (''c'', 1, 0), (''d'', 1, 5)] [] = Inr groups \<and>
      length (cycle_assembler
        [''a'' \<mapsto> ''charge'', ''b'' \<mapsto> ''charge'', ''c'' \<mapsto> ''discharge'', ''d'' \<mapsto> ''discharge'']
        concat (\<lambda>index. False) groups) = 1 + 1)"
proof -
  let ?ht = "[''a'' \<mapsto> ''charge'', ''b'' \<mapsto> ''charge'', ''c'' \<mapsto> ''discharge'', ''d'' \<mapsto> ''discharge'']"
  let ?rows = "[(''a'', 0 :: nat, 3 :: nat), (''b'', 0, 1), (''c'', 1, 0), (''d'', 1, 5)]"
  have a: "distinct (map fst ?rows)" by simp
  have b: "fst ` set ?rows \<subseteq> dom ?ht" by simp
  have c: "(\<lambda>(f, c, h). c) ` set ?rows = {0..1}" by auto
  have d: "distinct (map snd ?rows)" by simp
  have e: "\<forall>c x y. (\<exists>h. (x, c, h) \<in> set ?rows) \<and> (\<exists>h. (y, c, h) \<in> set ?rows) \<longrightarrow> ?ht x = ?ht y"
    by auto
  from contiguous_ordering_accepted [OF a b c d e, of "[]" concat "\<lambda>index. False"]
  obtain groups where
    g: "validate_ordering ?ht ?rows = Inr (Accepted groups)" "length groups = 1 + 1"
      "\<forall>c \<le> 1. set (groups ! c) = {f. \<exists>h. (f, c, h) \<in> set ?rows} \<and>
                     sorted_wrt (<) (map (\<lambda>f. snd (the (map_of ?rows f))) (groups ! c))"
      "edit_ordering ?ht ?rows [] = Inr groups"
      "length (cycle_assembler ?ht concat (\<lambda>index. False) groups) = 1 + 1"
    by (elim exE conjE) (rule that)
  from g(3) have "set (groups ! 0) = {f. \<exists>h. (f, 0, h) \<in> set ?rows}" by blast
  with g(1,2,4,5) have "\<exists>groups.
      validate_ordering ?ht ?rows = Inr (Accepted groups) \<and>
      length groups = 1 + 1 \<and>
      set (groups ! 0) = {f. \<exists>h. (f, 0, h) \<in> set ?rows} \<and>
      edit_ordering ?ht ?rows [] = Inr groups \<and>
      length (cycle_assembler ?ht concat (\<lambda>index. False) groups) = 1 + 1"
    by blast
  with a b c d show ?thesis by (intro conjI) assumption+
qed

section \<open>Properties of the upload handler\<close>

lemma instrument_mismatch_keeps_records:
  assumes "instrument experiment \<noteq> instrument new_experiment"
  shows "instrument (snd (add_to_existing iadd experiment new_experiment)) = instrument experiment \<and>
         bytestreams (snd (add_to_existing iadd experiment new_experiment)) = bytestreams experiment \<and>
         halfcycles (snd (add_to_existing iadd experiment new_experiment)) = halfcycles experiment"
  using assms by (auto simp: add_to_existing_def Let_def split: sum.splits if_splits)

lemma rejected_ordering_unchanged:
  assumes "validate_ordering ht rows = Inr warning" and "\<forall>groups. warning \<noteq> Accepted groups"
  shows "edit_ordering ht rows previous = Inr previous"
  using assms by (cases warning) (simp_all add: edit_ordering_def)

text \<open>
  C3. Adding a BIOLOGIC batch with one unparsed file to a GAMRY experiment: the join is
  refused, no file and no half-cycle is added, but the skipped-file counter of the
  existing experiment goes from 0 to 1. The experiment is not left in its prior state.
\<close>

theorem instrument_mismatch_counts_skipped:
  "add_to_existing iadd
     \<lparr>instrument = ''GAMRY'', bytestreams = [''a.DTA''], halfcycles = [''a.DTA''],
      skipped_files = 0\<rparr>
     \<lparr>instrument = ''BIOLOGIC'', bytestreams = [''b.mpt''], halfcycles = [],
      skipped_files = 0\<rparr>
   = (None, \<lparr>instrument = ''GAMRY'', bytestreams = [''a.DTA''], halfcycles = [''a.DTA''],
             skipped_files = 1\<rparr>)"
  by (simp add: add_to_existing_def generate_skipped_def Let_def)

end
